theory Spec2Isabelle
  imports Complex_Main "HOL-Library.AList" "HOL-Library.FSet"
begin

section \<open>Strings\<close>

text \<open>
  Python strings are modelled as \<^typ>\<open>string\<close>: a character is a code point below 256.
  The helpers below are the library calls the crawlers make on strings
  (\<^verbatim>\<open>str.split\<close>, \<^verbatim>\<open>str.strip\<close>, \<^verbatim>\<open>str.isdigit\<close>, \<^verbatim>\<open>str.startswith\<close>).
\<close>

definition is_lower :: "char \<Rightarrow> bool" where
  "is_lower c = ((97::nat) \<le> of_char c \<and> of_char c \<le> (122::nat))"

definition is_upper :: "char \<Rightarrow> bool" where
  "is_upper c = ((65::nat) \<le> of_char c \<and> of_char c \<le> (90::nat))"

definition is_ascii_digit :: "char \<Rightarrow> bool" where
  "is_ascii_digit c = ((48::nat) \<le> of_char c \<and> of_char c \<le> (57::nat))"

text \<open>\<^verbatim>\<open>str.isdigit\<close> also accepts the superscript digits of Latin-1 (178, 179, 185).\<close>

definition is_digit_char :: "char \<Rightarrow> bool" where
  "is_digit_char c = (is_ascii_digit c \<or> (of_char c :: nat) \<in> {178, 179, 185})"

definition isdigit :: "string \<Rightarrow> bool" where
  "isdigit s = (s \<noteq> [] \<and> list_all is_digit_char s)"

text \<open>\<^verbatim>\<open>str.isspace\<close> on one character, as \<^verbatim>\<open>str.strip()\<close> uses it.\<close>

definition is_space :: "char \<Rightarrow> bool" where
  "is_space c = (((9::nat) \<le> of_char c \<and> of_char c \<le> (13::nat))
     \<or> ((28::nat) \<le> of_char c \<and> of_char c \<le> (32::nat))
     \<or> of_char c = (133::nat) \<or> of_char c = (160::nat))"

definition strip_chars :: "(char \<Rightarrow> bool) \<Rightarrow> string \<Rightarrow> string" where
  "strip_chars p s = rev (dropWhile p (rev (dropWhile p s)))"

fun split_on :: "char \<Rightarrow> string \<Rightarrow> string list" where
  "split_on sep [] = [[]]"
| "split_on sep (c # cs) =
     (if c = sep then [] # split_on sep cs
      else (case split_on sep cs of [] \<Rightarrow> [[c]] | w # ws \<Rightarrow> (c # w) # ws))"

definition startswith :: "string \<Rightarrow> string \<Rightarrow> bool" where
  "startswith s p = (take (length p) s = p)"

section \<open>Link extraction\<close>

text \<open>
  The first pattern of both crawlers,
  \<^verbatim>\<open>https://www\.theguardian\.com/[a-zA-Z-]+/\d{4}/[a-zA-Z0-9/-]+\<close>.
  Each repeated class is followed by a character outside the class (or by nothing), so the
  greedy match is the only one: the longest run of the class, at least one character long.
  \<open>match_direct s\<close> is the match that starts at the head of \<open>s\<close>, if there is one.
\<close>

definition guardian_prefix :: string where
  "guardian_prefix = ''https://www.theguardian.com/''"

definition is_section_char :: "char \<Rightarrow> bool" where
  "is_section_char c = (is_lower c \<or> is_upper c \<or> c = CHR ''-'')"

definition is_tail_char :: "char \<Rightarrow> bool" where
  "is_tail_char c = (is_lower c \<or> is_upper c \<or> is_ascii_digit c \<or> c = CHR ''/'' \<or> c = CHR ''-'')"

definition match_direct :: "string \<Rightarrow> string option" where
  "match_direct s =
     (if \<not> startswith s guardian_prefix then None
      else let r1 = drop (length guardian_prefix) s;
               sec = takeWhile is_section_char r1;
               r2 = drop (length sec) r1;
               year = take 4 (drop 1 r2);
               r3 = drop 5 r2;
               rest = takeWhile is_tail_char (drop 1 r3)
           in if sec \<noteq> [] \<and> take 1 r2 = ''/'' \<and> length year = 4 \<and> list_all is_ascii_digit year
                 \<and> take 1 r3 = ''/'' \<and> rest \<noteq> []
              then Some (guardian_prefix @ sec @ ''/'' @ year @ ''/'' @ rest)
              else None)"

text \<open>
  \<^verbatim>\<open>re.findall\<close>: the matches from left to right, none overlapping another. The scan
  looks for a match at every position; after a match of length \<open>n\<close> it passes over the
  \<open>n - 1\<close> characters that follow the position where the match starts.
\<close>

fun findall_from :: "(string \<Rightarrow> string option) \<Rightarrow> nat \<Rightarrow> string \<Rightarrow> string list" where
  "findall_from m k [] = []"
| "findall_from m (Suc k) (c # cs) = findall_from m k cs"
| "findall_from m 0 (c # cs) =
     (case m (c # cs) of
        None \<Rightarrow> findall_from m 0 cs
      | Some w \<Rightarrow> w # findall_from m (length w - 1) cs)"

definition findall_direct :: "string \<Rightarrow> string list" where
  "findall_direct content = findall_from match_direct 0 content"

text \<open>
  The second pattern of \<^verbatim>\<open>RecursiveCrawler\<close>, a markdown link
  \<^verbatim>\<open>\[([^\]]+)\]\((https://www\.theguardian\.com/[^\)]+)\)\<close>. \<^verbatim>\<open>re.findall\<close> returns
  the two groups of each match; \<open>match_markdown\<close> returns the text, the URL and the
  length of the whole match.
\<close>

definition match_markdown :: "string \<Rightarrow> (string \<times> string \<times> nat) option" where
  "match_markdown s =
     (if take 1 s \<noteq> ''['' then None
      else let txt = takeWhile (\<lambda>c. c \<noteq> CHR '']'') (drop 1 s);
               r1 = drop (1 + length txt) s;
               r2 = drop 2 r1;
               path = takeWhile (\<lambda>c. c \<noteq> CHR '')'') (drop (length guardian_prefix) r2);
               r3 = drop (length guardian_prefix + length path) r2
           in if txt \<noteq> [] \<and> take 2 r1 = '']('' \<and> startswith r2 guardian_prefix \<and> path \<noteq> []
                 \<and> take 1 r3 = '')''
              then Some (txt, guardian_prefix @ path, length txt + length guardian_prefix + length path + 4)
              else None)"

fun findall_markdown_from :: "nat \<Rightarrow> string \<Rightarrow> (string \<times> string) list" where
  "findall_markdown_from k [] = []"
| "findall_markdown_from (Suc k) (c # cs) = findall_markdown_from k cs"
| "findall_markdown_from 0 (c # cs) =
     (case match_markdown (c # cs) of
        None \<Rightarrow> findall_markdown_from 0 cs
      | Some (txt, u, n) \<Rightarrow> (txt, u) # findall_markdown_from (n - 1) cs)"

definition findall_markdown :: "string \<Rightarrow> (string \<times> string) list" where
  "findall_markdown content = findall_markdown_from 0 content"

text \<open>
  \<^verbatim>\<open>urlparse(link).path\<close> for a link of the \<^verbatim>\<open>https\<close> scheme, the only ones the patterns
  produce: tabs and line breaks are removed, the network location runs from \<^verbatim>\<open>//\<close> to the first
  of \<^verbatim>\<open>/ ? #\<close>, then the fragment, the query and the parameters of the last segment are cut off.
\<close>

definition splitparams :: "string \<Rightarrow> string" where
  "splitparams p =
     (let seg = rev (takeWhile (\<lambda>c. c \<noteq> CHR ''/'') (rev p))
      in take (length p - length seg) p @ takeWhile (\<lambda>c. c \<noteq> CHR '';'') seg)"

definition urlparse_path :: "string \<Rightarrow> string" where
  "urlparse_path link =
     (let u = filter (\<lambda>c. c \<notin> {CHR 0x09, CHR 0x0A, CHR 0x0D}) link;
          r = drop (length ''https:'') u;
          r1 = (if take 2 r = ''//''
                then dropWhile (\<lambda>c. c \<notin> {CHR ''/'', CHR ''?'', CHR ''#''}) (drop 2 r) else r);
          r2 = takeWhile (\<lambda>c. c \<noteq> CHR ''#'') r1;
          r3 = takeWhile (\<lambda>c. c \<noteq> CHR ''?'') r2
      in splitparams r3)"

text \<open>The article filter of both extractors: \<^verbatim>\<open>/section/year/month/day/title\<close>.\<close>

definition is_article :: "string \<Rightarrow> bool" where
  "is_article link =
     (let path_parts = split_on CHR ''/'' (strip_chars (\<lambda>c. c = CHR ''/'') (urlparse_path link))
      in length path_parts \<ge> 5 \<and> isdigit (path_parts ! 1) \<and> length (path_parts ! 1) = 4)"

text \<open>
  Both extractors collect the matches in a Python \<^verbatim>\<open>set\<close>, iterate over it, and return
  \<^verbatim>\<open>list(set(article_links))\<close>. Python leaves the iteration order of a set open (for strings
  it changes with the hash seed of the process), so the model takes it as a parameter:
  \<open>set_order xs\<close> is the order in which the set built from the elements of \<open>xs\<close>, added in
  this order, is iterated. Whatever the order, it lists every element once (\<open>set_order_ok\<close>).
\<close>

definition set_order_ok :: "(string list \<Rightarrow> string list) \<Rightarrow> bool" where
  "set_order_ok set_order = (\<forall>xs. distinct (set_order xs) \<and> set (set_order xs) = set xs)"

text \<open>\<^verbatim>\<open>DepthLimitedCrawler.extract_guardian_links(content)\<close>\<close>

definition dl_extract_guardian_links :: "(string list \<Rightarrow> string list) \<Rightarrow> string \<Rightarrow> string list" where
  "dl_extract_guardian_links set_order content =
     (let links = set_order (findall_direct content);
          article_links = filter is_article links
      in set_order article_links)"

text \<open>\<^verbatim>\<open>RecursiveCrawler.extract_guardian_links(content, base_url)\<close>\<close>

definition rc_extract_guardian_links ::
  "(string list \<Rightarrow> string list) \<Rightarrow> string \<Rightarrow> string \<Rightarrow> string list" where
  "rc_extract_guardian_links set_order content base_url =
     (let links = set_order (findall_direct content @ map snd (findall_markdown content));
          article_links = filter is_article links
      in take 5 (set_order article_links))"

section \<open>The depth-limited crawler\<close>

text \<open>
  \<^verbatim>\<open>backend.crawl(url, format="markdown")\<close> is an external call: it reads and changes a world
  \<open>'w\<close> the crawler does not see, and either raises an exception (\<open>Raised\<close>, with \<^verbatim>\<open>str(e)\<close>)
  or returns a result whose \<^verbatim>\<open>markdown\<close> may be \<^verbatim>\<open>None\<close>.

  The crawlers print the title of a page they have fetched, inside the \<^verbatim>\<open>try\<close> block. The
  title comes from the markdown, and \<^verbatim>\<open>print\<close> raises \<^verbatim>\<open>UnicodeEncodeError\<close> when the
  standard output cannot encode it (a title with a lone surrogate on a UTF-8 output). A string
  of the model cannot hold such a character, so the outcome says it: \<open>Returned_unprintable\<close>
  is a result whose title cannot be printed, with the \<^verbatim>\<open>str\<close> of the error that
  \<^verbatim>\<open>print\<close> raises. The other prints write URLs, numbers and the messages of errors, which
  are strings of the model, and are taken to succeed.
\<close>

datatype fetch_outcome =
  Raised string
| Returned "string option"
| Returned_unprintable "string option" string

type_synonym 'w backend = "'w \<Rightarrow> string \<Rightarrow> fetch_outcome \<times> 'w"

text \<open>The effects of a run, in order: calls of the backend and \<^verbatim>\<open>asyncio.sleep(0.5)\<close>.\<close>

datatype event = Fetch string | Sleep

text \<open>
  The dictionary \<^verbatim>\<open>page_result\<close>. Its \<^verbatim>\<open>duration\<close> (wall-clock time, a float) is left out:
  nothing in the crawler reads it.
\<close>

record page_result =
  url :: string
  depth :: int
  title :: string
  content_length :: nat
  success :: bool
  error :: "string option"

text \<open>The fields of a \<^verbatim>\<open>DepthLimitedCrawler\<close> and its constructor.\<close>

record crawler =
  max_depth :: int
  max_pages_per_level :: int
  crawled_urls :: "string set"
  depth_results :: "(int \<times> page_result list) list"

definition init :: "int \<Rightarrow> int \<Rightarrow> crawler" where
  "init md mppl = \<lparr>max_depth = md, max_pages_per_level = mppl, crawled_urls = {}, depth_results = []\<rparr>"

text \<open>
  The state of one call of \<^verbatim>\<open>crawl_depth_limited\<close>: the fields of \<^verbatim>\<open>self\<close>, the local
  variables of the call, the world of the backend and the effects so far.
\<close>

record 'w frame = crawler +
  all_results_acc :: "page_result list"
  next_level :: "(string \<times> int) list"
  level_results :: "page_result list"
  pages_at_level :: int
  world :: 'w
  events :: "event list"

definition page_title :: "nat \<Rightarrow> string option \<Rightarrow> string" where
  "page_title limit markdown =
     (case markdown of
        None \<Rightarrow> ''Unknown''
      | Some m \<Rightarrow>
          if m = [] then ''Unknown''
          else (case find (\<lambda>line. startswith line ''# '') (split_on (CHR 0x0A) m) of
                  None \<Rightarrow> ''Unknown''
                | Some line \<Rightarrow> take limit (strip_chars is_space (drop 2 line))))"

definition markdown_length :: "string option \<Rightarrow> nat" where
  "markdown_length markdown = (case markdown of None \<Rightarrow> 0 | Some m \<Rightarrow> length m)"

definition markdown_or_empty :: "string option \<Rightarrow> string" where
  "markdown_or_empty markdown = (case markdown of None \<Rightarrow> [] | Some m \<Rightarrow> m)"

text \<open>The two dictionaries \<^verbatim>\<open>page_result\<close>, of the \<^verbatim>\<open>try\<close> and of the \<^verbatim>\<open>except\<close> branch.\<close>

definition success_page :: "string \<Rightarrow> int \<Rightarrow> string option \<Rightarrow> page_result" where
  "success_page u d markdown =
     \<lparr>url = u, depth = d, title = page_title 80 markdown,
      content_length = markdown_length markdown, success = True, error = None\<rparr>"

definition failed_page :: "string \<Rightarrow> int \<Rightarrow> string \<Rightarrow> page_result" where
  "failed_page u d e =
     \<lparr>url = u, depth = d, title = ''Failed'', content_length = 0, success = False, error = Some e\<rparr>"

text \<open>
  The \<^verbatim>\<open>try\<close> block after the backend has returned, up to the print of the title (lines 95
  to 119): the URL is a crawled URL now, the page counts for the level and is recorded.
\<close>

definition record_success :: "int \<Rightarrow> string \<Rightarrow> string option \<Rightarrow> 'w frame \<Rightarrow> 'w frame" where
  "record_success d u markdown s =
     (let s1 = s\<lparr>crawled_urls := insert u (crawled_urls s), pages_at_level := pages_at_level s + 1\<rparr>;
          page = success_page u d markdown
      in s1\<lparr>level_results := level_results s1 @ [page],
            all_results_acc := all_results_acc s1 @ [page]\<rparr>)"

text \<open>
  The body of the \<^verbatim>\<open>try\<close> after the backend has returned, when the title is printed
  (lines 95 to 136): the links are put into the next level, then the crawler sleeps.
\<close>

definition on_success ::
  "(string list \<Rightarrow> string list) \<Rightarrow> int \<Rightarrow> string \<Rightarrow> string option \<Rightarrow> 'w frame \<Rightarrow> 'w frame" where
  "on_success set_order d u markdown s =
     (let s2 = record_success d u markdown s;
          s3 = (if d < max_depth s2
                then let new_links = dl_extract_guardian_links set_order (markdown_or_empty markdown)
                     in s2\<lparr>next_level := next_level s2 @
                           map (\<lambda>link. (link, d + 1))
                             (filter (\<lambda>link. link \<notin> crawled_urls s2) (take 5 new_links))\<rparr>
                else s2)
      in s3\<lparr>events := events s3 @ [Sleep]\<rparr>)"

text \<open>The \<^verbatim>\<open>except Exception\<close> branch (lines 138 to 150).\<close>

definition on_failure :: "int \<Rightarrow> string \<Rightarrow> string \<Rightarrow> 'w frame \<Rightarrow> 'w frame" where
  "on_failure d u e s =
     (let page = failed_page u d e
      in s\<lparr>level_results := level_results s @ [page],
           all_results_acc := all_results_acc s @ [page]\<rparr>)"

text \<open>
  The \<^verbatim>\<open>try\<close> block when the print of the title raises (line 121): the page has been
  recorded as successful, and the \<^verbatim>\<open>except\<close> branch records a failed page for the same
  URL, with the message of the error. No link is extracted and the crawler does not sleep.
\<close>

definition on_print_error :: "int \<Rightarrow> string \<Rightarrow> string option \<Rightarrow> string \<Rightarrow> 'w frame \<Rightarrow> 'w frame" where
  "on_print_error d u markdown e s = on_failure d u e (record_success d u markdown s)"

text \<open>
  The loop \<^verbatim>\<open>for url, url_depth in current_level\<close>: \<^verbatim>\<open>continue\<close> goes on with the rest of
  the level, \<^verbatim>\<open>break\<close> leaves the loop with the state as it is.
\<close>

fun for_loop ::
  "(string list \<Rightarrow> string list) \<Rightarrow> 'w backend \<Rightarrow> int \<Rightarrow> (string \<times> int) list \<Rightarrow> 'w frame \<Rightarrow> 'w frame" where
  "for_loop set_order be d [] s = s"
| "for_loop set_order be d ((u, url_depth) # rest) s =
     (if u \<in> crawled_urls s then for_loop set_order be d rest s
      else if pages_at_level s \<ge> max_pages_per_level s then s
      else (case be (world s) u of
              (Returned markdown, w) \<Rightarrow>
                for_loop set_order be d rest
                  (on_success set_order d u markdown (s\<lparr>world := w, events := events s @ [Fetch u]\<rparr>))
            | (Returned_unprintable markdown e, w) \<Rightarrow>
                for_loop set_order be d rest
                  (on_print_error d u markdown e (s\<lparr>world := w, events := events s @ [Fetch u]\<rparr>))
            | (Raised e, w) \<Rightarrow>
                for_loop set_order be d rest
                  (on_failure d u e (s\<lparr>world := w, events := events s @ [Fetch u]\<rparr>))))"

text \<open>One pass of the \<^verbatim>\<open>while\<close> loop, for a level that is not empty and not too deep.\<close>

definition run_level ::
  "(string list \<Rightarrow> string list) \<Rightarrow> 'w backend \<Rightarrow> (string \<times> int) list \<Rightarrow> 'w frame \<Rightarrow> 'w frame" where
  "run_level set_order be current_level s =
     (let d = snd (hd current_level);
          s1 = for_loop set_order be d current_level
                 (s\<lparr>next_level := [], level_results := [], pages_at_level := 0\<rparr>)
      in s1\<lparr>depth_results := AList.update d (level_results s1) (depth_results s1)\<rparr>)"

text \<open>
  The loop \<^verbatim>\<open>while current_level\<close>. The depth of a level is read from its first item.
\<close>

function while_loop ::
  "(string list \<Rightarrow> string list) \<Rightarrow> 'w backend \<Rightarrow> (string \<times> int) list \<Rightarrow> 'w frame \<Rightarrow> 'w frame" where
  "while_loop set_order be current_level s =
     (if current_level = [] then s
      else if snd (hd current_level) > max_depth s then s
      else let s' = run_level set_order be current_level s
           in while_loop set_order be (next_level s') s')"
  by pat_completeness auto

text \<open>The dictionary that \<^verbatim>\<open>crawl_depth_limited\<close> returns.\<close>

record summary =
  max_depth_reached :: int
  total_pages :: nat
  successful_pages :: nat
  depth_breakdown :: "(int \<times> nat) list"
  results_by_depth :: "(int \<times> page_result list) list"
  all_results :: "page_result list"

definition summarize :: "'w frame \<Rightarrow> summary" where
  "summarize s =
     \<lparr>max_depth_reached =
        (if depth_results s = [] then 0 else Max (set (map fst (depth_results s)))),
      total_pages = length (all_results_acc s),
      successful_pages = length (filter success (all_results_acc s)),
      depth_breakdown = map (\<lambda>(d, results). (d, length results)) (depth_results s),
      results_by_depth = depth_results s,
      all_results = all_results_acc s\<rparr>"

text \<open>
  A call \<^verbatim>\<open>crawler.crawl_depth_limited(start_url)\<close> in the world \<open>w\<close>: what it returns, the
  crawler and the world it leaves behind, and its effects in order.
\<close>

record 'w outcome =
  returned :: summary
  self_after :: crawler
  world_after :: 'w
  effects :: "event list"

definition enter :: "crawler \<Rightarrow> 'w \<Rightarrow> 'w frame" where
  "enter c w =
     \<lparr>max_depth = max_depth c, max_pages_per_level = max_pages_per_level c,
      crawled_urls = crawled_urls c, depth_results = depth_results c,
      all_results_acc = [], next_level = [], level_results = [], pages_at_level = 0,
      world = w, events = []\<rparr>"

definition crawl_depth_limited ::
  "(string list \<Rightarrow> string list) \<Rightarrow> 'w backend \<Rightarrow> crawler \<Rightarrow> 'w \<Rightarrow> string \<Rightarrow> 'w outcome" where
  "crawl_depth_limited set_order be c w start_url =
     (let s = while_loop set_order be [(start_url, 0)] (enter c w)
      in \<lparr>returned = summarize s,
          self_after = \<lparr>max_depth = max_depth s, max_pages_per_level = max_pages_per_level s,
                        crawled_urls = crawled_urls s, depth_results = depth_results s\<rparr>,
          world_after = world s,
          effects = events s\<rparr>)"

section \<open>The page-count crawler\<close>

text \<open>
  \<^verbatim>\<open>RecursiveCrawler\<close> of \<^verbatim>\<open>recursive_crawling_demo.py\<close>, the sibling of the depth-limited
  crawler: one queue instead of levels, and a bound on the number of crawled pages. Its
  \<^verbatim>\<open>crawled_urls\<close> is a finite set, as the loop reads its size. The floats \<^verbatim>\<open>duration\<close>,
  \<^verbatim>\<open>total_time\<close> and \<^verbatim>\<open>success_rate\<close> are left out of the dictionaries; \<^verbatim>\<open>delay\<close> is
  only compared with 0 and is a rational number here.
\<close>

record rc_page =
  rc_url :: string
  rc_title :: string
  rc_content_length :: nat
  rc_success :: bool
  rc_error :: "string option"

record recursive_crawler =
  max_pages :: int
  delay :: rat
  rc_crawled_urls :: "string fset"
  rc_results :: "rc_page list"

definition rc_init :: "int \<Rightarrow> rat \<Rightarrow> recursive_crawler" where
  "rc_init mp dl = \<lparr>max_pages = mp, delay = dl, rc_crawled_urls = {||}, rc_results = []\<rparr>"

record 'w rc_frame = recursive_crawler +
  queue :: "string list"
  crawl_results :: "rc_page list"
  rc_world :: 'w
  rc_events :: "event list"

definition rc_success_page :: "string \<Rightarrow> string option \<Rightarrow> rc_page" where
  "rc_success_page u markdown =
     \<lparr>rc_url = u, rc_title = page_title 100 markdown,
      rc_content_length = markdown_length markdown, rc_success = True, rc_error = None\<rparr>"

definition rc_failed_page :: "string \<Rightarrow> string \<Rightarrow> rc_page" where
  "rc_failed_page u e =
     \<lparr>rc_url = u, rc_title = ''Failed'', rc_content_length = 0, rc_success = False,
      rc_error = Some e\<rparr>"

text \<open>
  The loop \<^verbatim>\<open>for link in new_links\<close> (lines 116 to 119): a link is appended to the queue
  unless it is a crawled URL or in the queue already.
\<close>

fun enqueue_links :: "string fset \<Rightarrow> string list \<Rightarrow> string list \<Rightarrow> string list" where
  "enqueue_links crawled [] q = q"
| "enqueue_links crawled (link # links) q =
     (if link |\<notin>| crawled \<and> link \<notin> set q then enqueue_links crawled links (q @ [link])
      else enqueue_links crawled links q)"

text \<open>
  The \<^verbatim>\<open>try\<close> block after the backend has returned, up to the print of the title (lines 86
  to 108).
\<close>

definition rc_record_success :: "string \<Rightarrow> string option \<Rightarrow> 'w rc_frame \<Rightarrow> 'w rc_frame" where
  "rc_record_success current_url markdown s =
     (let s1 = s\<lparr>rc_crawled_urls := finsert current_url (rc_crawled_urls s)\<rparr>
      in s1\<lparr>crawl_results := crawl_results s1 @ [rc_success_page current_url markdown]\<rparr>)"

text \<open>
  The body of the \<^verbatim>\<open>try\<close> after the backend has returned, when the title is printed
  (lines 86 to 126).
\<close>

definition rc_on_success ::
  "(string list \<Rightarrow> string list) \<Rightarrow> string \<Rightarrow> string option \<Rightarrow> 'w rc_frame \<Rightarrow> 'w rc_frame" where
  "rc_on_success set_order current_url markdown s =
     (let s2 = rc_record_success current_url markdown s;
          s3 = (if int (fcard (rc_crawled_urls s2)) < max_pages s2
                then let new_links = rc_extract_guardian_links set_order
                                       (markdown_or_empty markdown) current_url
                     in s2\<lparr>queue := enqueue_links (rc_crawled_urls s2) new_links (queue s2)\<rparr>
                else s2)
      in if delay s3 > 0 then s3\<lparr>rc_events := rc_events s3 @ [Sleep]\<rparr> else s3)"

text \<open>The \<^verbatim>\<open>except Exception\<close> branch (lines 128 to 138).\<close>

definition rc_on_failure :: "string \<Rightarrow> string \<Rightarrow> 'w rc_frame \<Rightarrow> 'w rc_frame" where
  "rc_on_failure current_url e s =
     s\<lparr>crawl_results := crawl_results s @ [rc_failed_page current_url e]\<rparr>"

text \<open>
  The \<^verbatim>\<open>try\<close> block when the print of the title raises (line 110): the \<^verbatim>\<open>except\<close>
  branch records a failed page after the successful one; nothing is put into the queue and
  the crawler does not sleep.
\<close>

definition rc_on_print_error :: "string \<Rightarrow> string option \<Rightarrow> string \<Rightarrow> 'w rc_frame \<Rightarrow> 'w rc_frame" where
  "rc_on_print_error current_url markdown e s =
     rc_on_failure current_url e (rc_record_success current_url markdown s)"

text \<open>The body of the \<^verbatim>\<open>while\<close> loop after \<^verbatim>\<open>queue.pop(0)\<close> has returned \<open>current_url\<close>.\<close>

definition rc_body ::
  "(string list \<Rightarrow> string list) \<Rightarrow> 'w backend \<Rightarrow> string \<Rightarrow> 'w rc_frame \<Rightarrow> 'w rc_frame" where
  "rc_body set_order be current_url s =
     (if current_url |\<in>| rc_crawled_urls s then s
      else (case be (rc_world s) current_url of
              (Returned markdown, w) \<Rightarrow>
                rc_on_success set_order current_url markdown
                  (s\<lparr>rc_world := w, rc_events := rc_events s @ [Fetch current_url]\<rparr>)
            | (Returned_unprintable markdown e, w) \<Rightarrow>
                rc_on_print_error current_url markdown e
                  (s\<lparr>rc_world := w, rc_events := rc_events s @ [Fetch current_url]\<rparr>)
            | (Raised e, w) \<Rightarrow>
                rc_on_failure current_url e
                  (s\<lparr>rc_world := w, rc_events := rc_events s @ [Fetch current_url]\<rparr>)))"

text \<open>The loop \<^verbatim>\<open>while queue and len(self.crawled_urls) < self.max_pages\<close>.\<close>

function rc_while ::
  "(string list \<Rightarrow> string list) \<Rightarrow> 'w backend \<Rightarrow> 'w rc_frame \<Rightarrow> 'w rc_frame" where
  "rc_while set_order be s =
     (case queue s of
        [] \<Rightarrow> s
      | current_url # rest \<Rightarrow>
          if int (fcard (rc_crawled_urls s)) < max_pages s
          then rc_while set_order be (rc_body set_order be current_url (s\<lparr>queue := rest\<rparr>))
          else s)"
  by pat_completeness auto

text \<open>
  The dictionary that \<^verbatim>\<open>crawl_recursive\<close> returns. Computing \<^verbatim>\<open>success_rate\<close> divides by
  the number of results, so the call raises \<^verbatim>\<open>ZeroDivisionError\<close> when there is none.
\<close>

datatype rc_error = ZeroDivisionError

record rc_summary =
  sm_start_url :: string
  sm_pages_crawled :: nat
  sm_total_content :: nat
  sm_results :: "rc_page list"

definition rc_summarize :: "string \<Rightarrow> 'w rc_frame \<Rightarrow> rc_error + rc_summary" where
  "rc_summarize start s =
     (if crawl_results s = [] then Inl ZeroDivisionError
      else Inr \<lparr>sm_start_url = start,
                sm_pages_crawled = fcard (rc_crawled_urls s),
                sm_total_content =
                  sum_list (map rc_content_length (filter rc_success (crawl_results s))),
                sm_results = crawl_results s\<rparr>)"

record 'w rc_outcome =
  rc_returned :: "rc_error + rc_summary"
  rc_self_after :: recursive_crawler
  rc_world_after :: 'w
  rc_effects :: "event list"

definition rc_enter :: "recursive_crawler \<Rightarrow> 'w \<Rightarrow> string \<Rightarrow> 'w rc_frame" where
  "rc_enter c w start =
     \<lparr>max_pages = max_pages c, delay = delay c, rc_crawled_urls = rc_crawled_urls c,
      rc_results = rc_results c, queue = [start], crawl_results = [], rc_world = w, rc_events = []\<rparr>"

definition crawl_recursive ::
  "(string list \<Rightarrow> string list) \<Rightarrow> 'w backend \<Rightarrow> recursive_crawler \<Rightarrow> 'w \<Rightarrow> string \<Rightarrow> 'w rc_outcome" where
  "crawl_recursive set_order be c w start =
     (let s = rc_while set_order be (rc_enter c w start)
      in \<lparr>rc_returned = rc_summarize start s,
          rc_self_after = \<lparr>max_pages = max_pages s, delay = delay s,
                           rc_crawled_urls = rc_crawled_urls s, rc_results = rc_results s\<rparr>,
          rc_world_after = rc_world s,
          rc_effects = rc_events s\<rparr>)"

section \<open>Scenarios\<close>

text \<open>
  Two iteration orders of a set. \<open>insertion_order\<close> lists the elements in the order in which
  they were first added. \<open>hashed_order\<close> lists them slot by slot in the manner of a hash
  table, the slot of a string being its length modulo 8 here, and in the order of insertion
  within a slot.
\<close>

definition insertion_order :: "string list \<Rightarrow> string list" where
  "insertion_order xs = rev (remdups (rev xs))"

definition hashed_order :: "string list \<Rightarrow> string list" where
  "hashed_order xs = sort_key (\<lambda>x. length x mod 8) (insertion_order xs)"

text \<open>
  The extractor only yields Guardian article links, so the pages B, C and D of the scenarios
  are three such links; the seed A links to them in this order. With the iteration order
  \<^const>\<open>insertion_order\<close> the extractor yields B, C, D for the content of A.
\<close>

definition page_a :: string where
  "page_a = ''A''"

definition page_b :: string where
  "page_b = ''https://www.theguardian.com/world/2024/jan/01/b''"

definition page_c :: string where
  "page_c = ''https://www.theguardian.com/world/2024/jan/01/c''"

definition page_d :: string where
  "page_d = ''https://www.theguardian.com/world/2024/jan/01/d''"

definition content_a :: string where
  "content_a = page_b @ '' '' @ page_c @ '' '' @ page_d"

text \<open>
  The backend of the scenario of the specification: A succeeds and links to B, C and D, B
  succeeds without links, C fails. The outcome for D is left to the caller.
\<close>

definition scenario_backend :: "fetch_outcome \<Rightarrow> unit backend" where
  "scenario_backend d_outcome w u =
     (if u = page_a then (Returned (Some content_a), w)
      else if u = page_b then (Returned (Some []), w)
      else if u = page_c then (Raised ''connection reset'', w)
      else if u = page_d then (d_outcome, w)
      else (Raised ''not found'', w))"

definition scenario_run :: "fetch_outcome \<Rightarrow> unit outcome" where
  "scenario_run d_outcome =
     crawl_depth_limited insertion_order (scenario_backend d_outcome) (init 2 2) () page_a"

text \<open>
  A page that fails and is linked again: A links to B and C, the fetch of B fails, C succeeds
  and links to B.
\<close>

definition content_bc :: string where
  "content_bc = page_b @ '' '' @ page_c"

definition relinked_backend :: "unit backend" where
  "relinked_backend w u =
     (if u = page_a then (Returned (Some content_bc), w)
      else if u = page_c then (Returned (Some page_b), w)
      else (Raised ''timeout'', w))"

definition relinked_run :: "unit outcome" where
  "relinked_run = crawl_depth_limited insertion_order relinked_backend (init 2 2) () page_a"

text \<open>
  A link found at one depth and crawled at the same depth: A links to B and C, and B links to
  C. The link from B puts C into the level of depth 2, and C is then crawled at depth 1.
\<close>

definition shared_backend :: "unit backend" where
  "shared_backend w u =
     (if u = page_a then (Returned (Some content_bc), w)
      else if u = page_b then (Returned (Some page_c), w)
      else (Returned None, w))"

definition shared_run :: "unit outcome" where
  "shared_run = crawl_depth_limited insertion_order shared_backend (init 2 2) () page_a"


text \<open>Two parents of one page: A links to B and C, both link to D, and the fetch of D fails.\<close>

definition two_parents_backend :: "unit backend" where
  "two_parents_backend w u =
     (if u = page_a then (Returned (Some content_bc), w)
      else if u = page_b \<or> u = page_c then (Returned (Some page_d), w)
      else (Raised ''timeout'', w))"

definition two_parents_run :: "unit outcome" where
  "two_parents_run = crawl_depth_limited insertion_order two_parents_backend (init 2 2) () page_a"



text \<open>
  A title that cannot be printed: A links to B and C, the fetch of B fails, and C is fetched
  but its title cannot be printed. The level of depth 1 is B, C, within the cap of 2.
\<close>

definition unprintable_backend :: "unit backend" where
  "unprintable_backend w u =
     (if u = page_a then (Returned (Some content_bc), w)
      else if u = page_b then (Raised ''timeout'', w)
      else (Returned_unprintable None ''surrogates not allowed'', w))"

definition unprintable_run :: "unit outcome" where
  "unprintable_run = crawl_depth_limited insertion_order unprintable_backend (init 2 2) () page_a"



text \<open>The state of the run with the two parents after the levels of depth 0 and of depth 1.\<close>

definition two_parents_after_0 :: "unit frame" where
  "two_parents_after_0 = run_level insertion_order two_parents_backend [(page_a, 0)] (enter (init 2 2) ())"

definition two_parents_after_1 :: "unit frame" where
  "two_parents_after_1 =
     run_level insertion_order two_parents_backend (next_level two_parents_after_0) two_parents_after_0"

text \<open>
  Contents for the extractors: six article links, and two article links of which the second
  has the smaller slot in \<^const>\<open>hashed_order\<close> (its length is 48, that of B is 47).
\<close>

definition page_e :: string where
  "page_e = ''https://www.theguardian.com/world/2024/jan/01/e''"

definition page_f :: string where
  "page_f = ''https://www.theguardian.com/world/2024/jan/01/f''"

definition page_g :: string where
  "page_g = ''https://www.theguardian.com/world/2024/jan/01/g''"

definition page_hh :: string where
  "page_hh = ''https://www.theguardian.com/world/2024/jan/01/hh''"

definition content_six :: string where
  "content_six = content_a @ '' '' @ page_e @ '' '' @ page_f @ '' '' @ page_g"

definition content_two :: string where
  "content_two = page_b @ '' '' @ page_hh"

text \<open>The page-count crawler on the backends above, with room for ten pages.\<close>

definition two_parents_rc_run :: "unit rc_outcome" where
  "two_parents_rc_run =
     crawl_recursive insertion_order two_parents_backend (rc_init 10 1) () page_a"

definition scenario_rc_run :: "unit rc_outcome" where
  "scenario_rc_run =
     crawl_recursive insertion_order (scenario_backend (Raised ''timeout'')) (rc_init 10 1) () page_a"

text \<open>
  A second call on a crawler that has been used: the crawler left by the run of the scenario
  in which the fetch of D fails, called again with the seed A.
\<close>

definition used_crawler :: crawler where
  "used_crawler = self_after (scenario_run (Raised ''timeout''))"

definition second_run :: "unit outcome" where
  "second_run =
     crawl_depth_limited insertion_order (scenario_backend (Raised ''timeout'')) used_crawler () page_a"

definition second_run_level_0 :: "unit frame" where
  "second_run_level_0 =
     run_level insertion_order (scenario_backend (Raised ''timeout'')) [(page_a, 0)]
       (enter used_crawler ())"

section \<open>Vocabulary of the properties\<close>

text \<open>
  A page is recorded for every fetch, and a second one when the \<^verbatim>\<open>try\<close> block raises
  after the backend has returned. \<open>attempts\<close> reads the fetches back from the recorded pages,
  given as pairs of URL and success: a failed page right after the successful page of the
  same URL is the second page of one fetch.
\<close>

datatype try_outcome = Fetch_failed | Completed | Failed_after_fetch

fun attempts :: "(string \<times> bool) list \<Rightarrow> (string \<times> try_outcome) list" where
  "attempts [] = []"
| "attempts [(u, ok)] = [(u, if ok then Completed else Fetch_failed)]"
| "attempts ((u, ok) # (v, ok') # ps) =
     (if ok \<and> \<not> ok' \<and> v = u then (u, Failed_after_fetch) # attempts ps
      else (u, if ok then Completed else Fetch_failed) # attempts ((v, ok') # ps))"

definition shape :: "page_result \<Rightarrow> string \<times> bool" where
  "shape r = (url r, success r)"

definition rc_shape :: "rc_page \<Rightarrow> string \<times> bool" where
  "rc_shape r = (rc_url r, rc_success r)"

text \<open>
  The effects of one fetch: the call of the backend, and a sleep when the \<^verbatim>\<open>try\<close> block
  ran to its end and the crawler sleeps at all (\<open>sleeps\<close>: always for the depth-limited
  crawler, with a positive delay for the page-count crawler).
\<close>

fun attempt_events :: "bool \<Rightarrow> string \<times> try_outcome \<Rightarrow> event list" where
  "attempt_events sleeps (u, k) = Fetch u # (if k = Completed \<and> sleeps then [Sleep] else [])"

text \<open>
  \<open>attempts_ok V ts\<close>: each of the fetches \<open>ts\<close>, in order, was made at a moment when its URL
  was not among the crawled URLs, which are \<open>V\<close> at the start and gain the URL of every fetch
  that returned.
\<close>

fun attempts_ok :: "string set \<Rightarrow> (string \<times> try_outcome) list \<Rightarrow> bool" where
  "attempts_ok V [] = True"
| "attempts_ok V ((u, k) # ts) =
     (u \<notin> V \<and> attempts_ok (if k = Fetch_failed then V else insert u V) ts)"

text \<open>The URLs of the fetches among \<open>ts\<close> that returned.\<close>

definition returned_of :: "(string \<times> try_outcome) list \<Rightarrow> string set" where
  "returned_of ts = {u. (u, Completed) \<in> set ts \<or> (u, Failed_after_fetch) \<in> set ts}"

text \<open>The URLs of the successful pages among \<open>rs\<close>.\<close>

definition crawled_of :: "page_result list \<Rightarrow> string set" where
  "crawled_of rs = set (map url (filter success rs))"

text \<open>The number of successful pages at depth \<open>d\<close> among \<open>rs\<close>.\<close>

definition successes_at :: "int \<Rightarrow> page_result list \<Rightarrow> nat" where
  "successes_at d rs = length (filter (\<lambda>r. success r \<and> depth r = d) rs)"

text \<open>The number of pages at depth \<open>d\<close> among \<open>rs\<close>, successful or not.\<close>

definition pages_at :: "int \<Rightarrow> page_result list \<Rightarrow> nat" where
  "pages_at d rs = length (filter (\<lambda>r. depth r = d) rs)"

text \<open>
  What the loop over a level keeps true, from the state \<open>s0\<close> in which the level starts (with
  no results of the level yet): the pages of the level are added to the results of the call,
  the successful ones to the crawled URLs, and \<^verbatim>\<open>pages_at_level\<close> counts the successful
  ones.
\<close>

definition level_inv :: "'w frame \<Rightarrow> int \<Rightarrow> 'w frame \<Rightarrow> bool" where
  "level_inv s0 d s =
     (all_results_acc s = all_results_acc s0 @ level_results s
      \<and> crawled_urls s = crawled_urls s0 \<union> crawled_of (level_results s)
      \<and> list_all (\<lambda>r. depth r = d) (level_results s)
      \<and> pages_at_level s = int (length (filter success (level_results s)))
      \<and> pages_at_level s \<le> max 0 (max_pages_per_level s))"

text \<open>
  What every step of a call keeps true, \<open>V\<close> being the crawled URLs before the call: the
  effects are those of the fetches read back from the pages, every fetch was of a URL not yet
  crawled, and the crawled URLs are \<open>V\<close> and the URLs of the successful pages, each of which
  has one successful page.
\<close>

definition trace_inv :: "string set \<Rightarrow> 'w frame \<Rightarrow> bool" where
  "trace_inv V s =
     (events s = concat (map (attempt_events True) (attempts (map shape (all_results_acc s))))
      \<and> attempts_ok V (attempts (map shape (all_results_acc s)))
      \<and> crawled_urls s = V \<union> crawled_of (all_results_acc s)
      \<and> distinct (map url (filter success (all_results_acc s))))"

text \<open>
  What the loop over the levels keeps true in a call on the crawler \<open>c\<close>, at the moment the
  level \<open>current_level\<close> is about to be processed.
\<close>

definition run_inv :: "crawler \<Rightarrow> (string \<times> int) list \<Rightarrow> 'w frame \<Rightarrow> bool" where
  "run_inv c current_level s =
     (max_depth s = max_depth c \<and> max_pages_per_level s = max_pages_per_level c
      \<and> trace_inv (crawled_urls c) s
      \<and> list_all (\<lambda>r. depth r \<le> max_depth c) (all_results_acc s)
      \<and> (\<forall>d. int (successes_at d (all_results_acc s)) \<le> max 0 (max_pages_per_level c))
      \<and> list_all (\<lambda>r. list_all (\<lambda>x. depth r < snd x) current_level) (all_results_acc s)
      \<and> list_all (\<lambda>x. snd x = snd (hd current_level)) current_level)"

text \<open>The URLs passed to the backend, in order.\<close>

fun fetched_urls :: "event list \<Rightarrow> string list" where
  "fetched_urls [] = []"
| "fetched_urls (Fetch u # es) = u # fetched_urls es"
| "fetched_urls (Sleep # es) = fetched_urls es"






text \<open>
  What the loop over the levels keeps true in a call on a new crawler: the depths recorded so
  far are \<open>0, \<dots>, n - 1\<close>, and the level about to be processed has depth \<open>n\<close>.
\<close>

definition fresh_inv :: "nat \<Rightarrow> (string \<times> int) list \<Rightarrow> 'w frame \<Rightarrow> bool" where
  "fresh_inv n cl s =
     (map fst (depth_results s) = map int [0..<n] \<and> list_all (\<lambda>x. snd x = int n) cl
      \<and> (n = 0 \<longrightarrow> cl \<noteq> [] \<and> 0 \<le> max_depth s))"

text \<open>
  The same for a call on any crawler \<open>c\<close>: the depths recorded are those recorded in \<open>c\<close>
  before the call and \<open>0, \<dots>, n - 1\<close>.
\<close>

definition keys_inv :: "crawler \<Rightarrow> nat \<Rightarrow> (string \<times> int) list \<Rightarrow> 'w frame \<Rightarrow> bool" where
  "keys_inv c n cl s =
     (fst ` set (depth_results s) = fst ` set (depth_results c) \<union> int ` {0..<n}
      \<and> list_all (\<lambda>x. snd x = int n) cl
      \<and> max_depth s = max_depth c
      \<and> (n = 0 \<longrightarrow> cl \<noteq> [])
      \<and> (0 < n \<longrightarrow> 0 \<le> max_depth c))"

section \<open>Properties of the level loop\<close>

lemma page_simps [simp]:
  "url (success_page u d md) = u" "depth (success_page u d md) = d"
  "success (success_page u d md)" "error (success_page u d md) = None"
  "url (failed_page u d e) = u" "depth (failed_page u d e) = d"
  "\<not> success (failed_page u d e)" "error (failed_page u d e) = Some e"
  by (simp_all add: success_page_def failed_page_def)

lemma on_success_config [simp]:
  "max_depth (on_success so d u md s) = max_depth s"
  "max_pages_per_level (on_success so d u md s) = max_pages_per_level s"
  by (simp_all add: on_success_def record_success_def Let_def)

lemma on_success_fields [simp]:
  "crawled_urls (on_success so d u md s) = insert u (crawled_urls s)"
  "pages_at_level (on_success so d u md s) = pages_at_level s + 1"
  "level_results (on_success so d u md s) = level_results s @ [success_page u d md]"
  "all_results_acc (on_success so d u md s) = all_results_acc s @ [success_page u d md]"
  "events (on_success so d u md s) = events s @ [Sleep]"
  "world (on_success so d u md s) = world s"
  "depth_results (on_success so d u md s) = depth_results s"
  by (simp_all add: on_success_def record_success_def Let_def)

lemma on_success_next_level:
  "next_level (on_success so d u md s) =
     next_level s @
       (if d < max_depth s
        then map (\<lambda>link. (link, d + 1))
               (filter (\<lambda>link. link \<notin> insert u (crawled_urls s))
                  (take 5 (dl_extract_guardian_links so (markdown_or_empty md))))
        else [])"
  by (simp add: on_success_def record_success_def Let_def)

lemma on_failure_fields [simp]:
  "crawled_urls (on_failure d u e s) = crawled_urls s"
  "pages_at_level (on_failure d u e s) = pages_at_level s"
  "level_results (on_failure d u e s) = level_results s @ [failed_page u d e]"
  "all_results_acc (on_failure d u e s) = all_results_acc s @ [failed_page u d e]"
  "events (on_failure d u e s) = events s"
  "world (on_failure d u e s) = world s"
  "depth_results (on_failure d u e s) = depth_results s"
  by (simp_all add: on_failure_def Let_def)

lemma on_failure_config [simp]:
  "max_depth (on_failure d u e s) = max_depth s"
  "max_pages_per_level (on_failure d u e s) = max_pages_per_level s"
  by (simp_all add: on_failure_def Let_def)

lemma on_failure_next_level [simp]: "next_level (on_failure d u e s) = next_level s"
  by (simp add: on_failure_def Let_def)

lemma on_print_error_fields [simp]:
  "max_depth (on_print_error d u md e s) = max_depth s"
  "max_pages_per_level (on_print_error d u md e s) = max_pages_per_level s"
  "crawled_urls (on_print_error d u md e s) = insert u (crawled_urls s)"
  "pages_at_level (on_print_error d u md e s) = pages_at_level s + 1"
  "level_results (on_print_error d u md e s) =
     level_results s @ [success_page u d md, failed_page u d e]"
  "all_results_acc (on_print_error d u md e s) =
     all_results_acc s @ [success_page u d md, failed_page u d e]"
  "events (on_print_error d u md e s) = events s"
  "world (on_print_error d u md e s) = world s"
  "depth_results (on_print_error d u md e s) = depth_results s"
  "next_level (on_print_error d u md e s) = next_level s"
  by (simp_all add: on_print_error_def record_success_def Let_def)

lemma for_loop_Cons:
  "for_loop so be d ((u, ud) # rest) s =
     (if u \<in> crawled_urls s then for_loop so be d rest s
      else if pages_at_level s \<ge> max_pages_per_level s then s
      else (case fst (be (world s) u) of
              Returned md \<Rightarrow> for_loop so be d rest
                 (on_success so d u md (s\<lparr>world := snd (be (world s) u), events := events s @ [Fetch u]\<rparr>))
            | Returned_unprintable md e \<Rightarrow> for_loop so be d rest
                 (on_print_error d u md e
                    (s\<lparr>world := snd (be (world s) u), events := events s @ [Fetch u]\<rparr>))
            | Raised e \<Rightarrow> for_loop so be d rest
                 (on_failure d u e (s\<lparr>world := snd (be (world s) u), events := events s @ [Fetch u]\<rparr>))))"
  by (cases "be (world s) u") (simp split: fetch_outcome.splits)

lemma for_loop_invariant:
  assumes init: "P s"
    and succ: "\<And>s u md. P s \<Longrightarrow> u \<notin> crawled_urls s \<Longrightarrow> pages_at_level s < max_pages_per_level s \<Longrightarrow>
              fst (be (world s) u) = Returned md \<Longrightarrow>
              P (on_success so d u md (s\<lparr>world := snd (be (world s) u), events := events s @ [Fetch u]\<rparr>))"
    and perr: "\<And>s u md e. P s \<Longrightarrow> u \<notin> crawled_urls s \<Longrightarrow> pages_at_level s < max_pages_per_level s \<Longrightarrow>
              fst (be (world s) u) = Returned_unprintable md e \<Longrightarrow>
              P (on_print_error d u md e (s\<lparr>world := snd (be (world s) u), events := events s @ [Fetch u]\<rparr>))"
    and fail: "\<And>s u e. P s \<Longrightarrow> u \<notin> crawled_urls s \<Longrightarrow> pages_at_level s < max_pages_per_level s \<Longrightarrow>
              fst (be (world s) u) = Raised e \<Longrightarrow>
              P (on_failure d u e (s\<lparr>world := snd (be (world s) u), events := events s @ [Fetch u]\<rparr>))"
  shows "P (for_loop so be d cl s)"
  using init
proof (induction cl arbitrary: s)
  case Nil
  then show ?case by simp
next
  case (Cons item rest)
  obtain u ud where item: "item = (u, ud)" by (cases item)
  show ?case
  proof (cases "u \<in> crawled_urls s")
    case True
    then show ?thesis unfolding item for_loop_Cons using Cons by simp
  next
    case unvisited: False
    show ?thesis
    proof (cases "pages_at_level s \<ge> max_pages_per_level s")
      case True
      then show ?thesis unfolding item for_loop_Cons using unvisited Cons.prems by simp
    next
      case False
      then have room: "pages_at_level s < max_pages_per_level s" by simp
      show ?thesis
      proof (cases "fst (be (world s) u)")
        case (Raised e)
        have "P (on_failure d u e (s\<lparr>world := snd (be (world s) u), events := events s @ [Fetch u]\<rparr>))"
          by (rule fail[OF Cons.prems unvisited room Raised])
        then have "P (for_loop so be d rest (on_failure d u e (s\<lparr>world := snd (be (world s) u), events := events s @ [Fetch u]\<rparr>)))"
          by (rule Cons.IH)
        then show ?thesis unfolding item for_loop_Cons using unvisited False Raised by simp
      next
        case (Returned_unprintable md e)
        have "P (on_print_error d u md e (s\<lparr>world := snd (be (world s) u), events := events s @ [Fetch u]\<rparr>))"
          by (rule perr[OF Cons.prems unvisited room Returned_unprintable])
        then have "P (for_loop so be d rest (on_print_error d u md e (s\<lparr>world := snd (be (world s) u), events := events s @ [Fetch u]\<rparr>)))"
          by (rule Cons.IH)
        then show ?thesis unfolding item for_loop_Cons using unvisited False Returned_unprintable by simp
      next
        case (Returned md)
        have "P (on_success so d u md (s\<lparr>world := snd (be (world s) u), events := events s @ [Fetch u]\<rparr>))"
          by (rule succ[OF Cons.prems unvisited room Returned])
        then have "P (for_loop so be d rest (on_success so d u md (s\<lparr>world := snd (be (world s) u), events := events s @ [Fetch u]\<rparr>)))"
          by (rule Cons.IH)
        then show ?thesis unfolding item for_loop_Cons using unvisited False Returned by simp
      qed
    qed
  qed
qed

lemma for_loop_max_depth [simp]: "max_depth (for_loop so be d cl s) = max_depth s"
  by (rule for_loop_invariant[where P = "\<lambda>t. max_depth t = max_depth s"]) simp_all

lemma for_loop_max_pages [simp]:
  "max_pages_per_level (for_loop so be d cl s) = max_pages_per_level s"
  by (rule for_loop_invariant[where P = "\<lambda>t. max_pages_per_level t = max_pages_per_level s"]) simp_all

lemma on_success_next_depth:
  "\<forall>x \<in> set (next_level s). snd x = d + 1 \<Longrightarrow>
   \<forall>x \<in> set (next_level (on_success so d u md s)). snd x = d + 1"
  by (auto simp: on_success_next_level)

lemma for_loop_next_depth:
  assumes "\<forall>x \<in> set (next_level s). snd x = d + 1"
  shows "\<forall>x \<in> set (next_level (for_loop so be d cl s)). snd x = d + 1"
proof (rule for_loop_invariant[where P = "\<lambda>t. \<forall>x \<in> set (next_level t). snd x = d + 1"])
  show "\<forall>x \<in> set (next_level s). snd x = d + 1" by (rule assms)
next
  fix t :: "'a frame" and u md
  assume "\<forall>x \<in> set (next_level t). snd x = d + 1"
  then show "\<forall>x \<in> set (next_level (on_success so d u md (t\<lparr>world := snd (be (world t) u), events := events t @ [Fetch u]\<rparr>))). snd x = d + 1"
    by (intro on_success_next_depth) simp
next
  fix t :: "'a frame" and u md e
  assume "\<forall>x \<in> set (next_level t). snd x = d + 1"
  then show "\<forall>x \<in> set (next_level (on_print_error d u md e (t\<lparr>world := snd (be (world t) u), events := events t @ [Fetch u]\<rparr>))). snd x = d + 1"
    by simp
next
  fix t :: "'a frame" and u e
  assume "\<forall>x \<in> set (next_level t). snd x = d + 1"
  then show "\<forall>x \<in> set (next_level (on_failure d u e (t\<lparr>world := snd (be (world t) u), events := events t @ [Fetch u]\<rparr>))). snd x = d + 1"
    by simp
qed

lemma for_loop_depth_results [simp]: "depth_results (for_loop so be d cl s) = depth_results s"
  by (rule for_loop_invariant[where P = "\<lambda>t. depth_results t = depth_results s"]) simp_all

text \<open>What a level adds to the results and the effects, whatever the state it starts in.\<close>

lemma crawled_of_simps [simp]:
  "crawled_of [] = {}"
  "crawled_of (rs @ [r]) = (if success r then insert (url r) (crawled_of rs) else crawled_of rs)"
  by (auto simp: crawled_of_def)

lemma crawled_of_append: "crawled_of (rs @ rs') = crawled_of rs \<union> crawled_of rs'"
  by (auto simp: crawled_of_def)

lemma for_loop_level_inv:
  assumes "level_results s0 = []" "pages_at_level s0 = 0"
  shows "level_inv s0 d (for_loop so be d cl s0)"
proof (rule for_loop_invariant[where P = "level_inv s0 d"])
  show "level_inv s0 d s0" using assms by (simp add: level_inv_def)
next
  fix s :: "'a frame" and u md
  assume "level_inv s0 d s" "u \<notin> crawled_urls s" "pages_at_level s < max_pages_per_level s"
  then show "level_inv s0 d (on_success so d u md (s\<lparr>world := snd (be (world s) u), events := events s @ [Fetch u]\<rparr>))"
    by (simp add: level_inv_def)
next
  fix s :: "'a frame" and u md e
  assume "level_inv s0 d s" "u \<notin> crawled_urls s" "pages_at_level s < max_pages_per_level s"
  then show "level_inv s0 d (on_print_error d u md e (s\<lparr>world := snd (be (world s) u), events := events s @ [Fetch u]\<rparr>))"
    by (simp add: level_inv_def crawled_of_def)
next
  fix s :: "'a frame" and u e
  assume "level_inv s0 d s" "u \<notin> crawled_urls s" "pages_at_level s < max_pages_per_level s"
  then show "level_inv s0 d (on_failure d u e (s\<lparr>world := snd (be (world s) u), events := events s @ [Fetch u]\<rparr>))"
    by (simp add: level_inv_def)
qed

lemma run_level_max_depth [simp]: "max_depth (run_level so be cl s) = max_depth s"
  by (simp add: run_level_def Let_def)

lemma run_level_max_pages [simp]: "max_pages_per_level (run_level so be cl s) = max_pages_per_level s"
  by (simp add: run_level_def Let_def)

lemma run_level_next_depth:
  "\<forall>x \<in> set (next_level (run_level so be cl s)). snd x = snd (hd cl) + 1"
proof -
  have "\<forall>x \<in> set (next_level (for_loop so be (snd (hd cl)) cl
           (s\<lparr>next_level := [], level_results := [], pages_at_level := 0\<rparr>))). snd x = snd (hd cl) + 1"
    by (rule for_loop_next_depth) simp
  then show ?thesis by (simp add: run_level_def Let_def)
qed

termination while_loop
proof (relation "measure (\<lambda>(so, be, cl, s). if cl = [] then 0 else nat (max_depth s + 1 - snd (hd cl)) + 1)",
       goal_cases)
  case 1
  show ?case by simp
next
  case (2 so be cl s s')
  have "\<forall>x \<in> set (next_level s'). snd x = snd (hd cl) + 1"
    unfolding 2(3) by (rule run_level_next_depth)
  then have "next_level s' \<noteq> [] \<Longrightarrow> snd (hd (next_level s')) = snd (hd cl) + 1"
    by (cases "next_level s'") auto
  moreover have "max_depth s' = max_depth s" unfolding 2(3) by simp
  ultimately show ?case using 2(1,2) by auto
qed

declare while_loop.simps [simp del]


lemma run_level_level_inv:
  "level_inv (s\<lparr>next_level := [], level_results := [], pages_at_level := 0\<rparr>) (snd (hd cl))
     (for_loop so be (snd (hd cl)) cl (s\<lparr>next_level := [], level_results := [], pages_at_level := 0\<rparr>))"
  by (rule for_loop_level_inv) simp_all

lemma run_level_fields:
  "level_results (run_level so be cl s) =
     level_results (for_loop so be (snd (hd cl)) cl (s\<lparr>next_level := [], level_results := [], pages_at_level := 0\<rparr>))"
  "all_results_acc (run_level so be cl s) =
     all_results_acc (for_loop so be (snd (hd cl)) cl (s\<lparr>next_level := [], level_results := [], pages_at_level := 0\<rparr>))"
  "events (run_level so be cl s) =
     events (for_loop so be (snd (hd cl)) cl (s\<lparr>next_level := [], level_results := [], pages_at_level := 0\<rparr>))"
  "crawled_urls (run_level so be cl s) =
     crawled_urls (for_loop so be (snd (hd cl)) cl (s\<lparr>next_level := [], level_results := [], pages_at_level := 0\<rparr>))"
  "next_level (run_level so be cl s) =
     next_level (for_loop so be (snd (hd cl)) cl (s\<lparr>next_level := [], level_results := [], pages_at_level := 0\<rparr>))"
  "world (run_level so be cl s) =
     world (for_loop so be (snd (hd cl)) cl (s\<lparr>next_level := [], level_results := [], pages_at_level := 0\<rparr>))"
  by (simp_all add: run_level_def Let_def)

lemma run_level_results:
  "all_results_acc (run_level so be cl s) = all_results_acc s @ level_results (run_level so be cl s)"
  "crawled_urls (run_level so be cl s) = crawled_urls s \<union> crawled_of (level_results (run_level so be cl s))"
  "list_all (\<lambda>r. depth r = snd (hd cl)) (level_results (run_level so be cl s))"
  "int (length (filter success (level_results (run_level so be cl s)))) \<le> max 0 (max_pages_per_level s)"
  using run_level_level_inv[of s cl so be]
  by (simp_all add: run_level_fields level_inv_def)

lemma run_level_depth_results:
  "depth_results (run_level so be cl s) =
     AList.update (snd (hd cl)) (level_results (run_level so be cl s)) (depth_results s)"
  by (simp add: run_level_def Let_def)

lemma while_loop_invariant:
  assumes "I cl s"
    and "\<And>cl s. I cl s \<Longrightarrow> cl \<noteq> [] \<Longrightarrow> snd (hd cl) \<le> max_depth s \<Longrightarrow>
                 I (next_level (run_level so be cl s)) (run_level so be cl s)"
    and "\<And>cl s. I cl s \<Longrightarrow> cl = [] \<or> snd (hd cl) > max_depth s \<Longrightarrow> Q s"
  shows "Q (while_loop so be cl s)"
  using assms
proof (induction so be cl s rule: while_loop.induct)
  case (1 so be cl s)
  note start = "1.prems"(1) and step = "1.prems"(2) and final = "1.prems"(3)
  show ?case
  proof (cases "cl = [] \<or> snd (hd cl) > max_depth s")
    case True
    then have "while_loop so be cl s = s" by (auto simp: while_loop.simps[of so be cl s])
    with final[OF start True] show ?thesis by simp
  next
    case False
    then have ne: "cl \<noteq> []" and le: "\<not> snd (hd cl) > max_depth s" by auto
    have eq: "while_loop so be cl s =
                while_loop so be (next_level (run_level so be cl s)) (run_level so be cl s)"
      using False by (simp add: while_loop.simps[of so be cl s] Let_def)
    have "I (next_level (run_level so be cl s)) (run_level so be cl s)"
      using start ne le by (intro step) simp_all
    then have "Q (while_loop so be (next_level (run_level so be cl s)) (run_level so be cl s))"
      by (rule "1.IH"[OF ne le refl _ step final])
    then show ?thesis by (simp only: eq)
  qed
qed

lemma attempts_snoc_success: "attempts (ps @ [(u, True)]) = attempts ps @ [(u, Completed)]"
  by (induction ps rule: attempts.induct) auto

lemma attempts_snoc_failed:
  "(u, True) \<notin> set ps \<Longrightarrow> attempts (ps @ [(u, False)]) = attempts ps @ [(u, Fetch_failed)]"
  by (induction ps rule: attempts.induct) auto

lemma attempts_snoc_pair:
  "attempts (ps @ [(u, True), (u, False)]) = attempts ps @ [(u, Failed_after_fetch)]"
  by (induction ps rule: attempts.induct) auto

lemma returned_of_simps [simp]:
  "returned_of [] = {}"
  "returned_of ((u, k) # ts) = (if k = Fetch_failed then returned_of ts else insert u (returned_of ts))"
  by (cases k; auto simp: returned_of_def)+

lemma returned_of_attempts: "returned_of (attempts ps) = {u. (u, True) \<in> set ps}"
proof (induction ps rule: attempts.induct)
  case 1
  show ?case by simp
next
  case (2 u ok)
  show ?case by (cases ok) auto
next
  case (3 u ok v ok' ps)
  show ?case
  proof (cases "ok \<and> \<not> ok' \<and> v = u")
    case True
    then show ?thesis using 3(1) by auto
  next
    case False
    then show ?thesis using 3(2) by (cases ok) auto
  qed
qed

lemma attempts_ok_snoc:
  "attempts_ok V (ts @ [(u, k)]) = (attempts_ok V ts \<and> u \<notin> V \<union> returned_of ts)"
proof (induction ts arbitrary: V)
  case Nil
  show ?case by simp
next
  case (Cons t ts)
  obtain v j where t: "t = (v, j)" by (cases t)
  show ?case unfolding t using Cons.IH by auto
qed

lemma shape_mem: "((u, True) \<in> shape ` set rs) = (u \<in> crawled_of rs)"
  by (auto simp: shape_def crawled_of_def)

lemma returned_of_shapes: "returned_of (attempts (map shape rs)) = crawled_of rs"
  by (auto simp: returned_of_attempts shape_mem)

lemma shape_pages [simp]:
  "shape (success_page u d md) = (u, True)" "shape (failed_page u d e) = (u, False)"
  by (simp_all add: shape_def)

lemma trace_inv_success:
  assumes "trace_inv V s" and "u \<notin> crawled_urls s"
  shows "trace_inv V (on_success so d u md (s\<lparr>world := w, events := events s @ [Fetch u]\<rparr>))"
proof -
  have un: "u \<notin> V" "u \<notin> crawled_of (all_results_acc s)" using assms by (simp_all add: trace_inv_def)
  then have "u \<notin> set (map url (filter success (all_results_acc s)))" by (simp add: crawled_of_def)
  then show ?thesis using assms(1) un
    by (simp add: trace_inv_def attempts_snoc_success attempts_ok_snoc returned_of_shapes)
qed

lemma trace_inv_print_error:
  assumes "trace_inv V s" and "u \<notin> crawled_urls s"
  shows "trace_inv V (on_print_error d u md e (s\<lparr>world := w, events := events s @ [Fetch u]\<rparr>))"
proof -
  have un: "u \<notin> V" "u \<notin> crawled_of (all_results_acc s)" using assms by (simp_all add: trace_inv_def)
  then have nu: "u \<notin> set (map url (filter success (all_results_acc s)))" by (simp add: crawled_of_def)
  have c: "crawled_of (all_results_acc s @ [success_page u d md, failed_page u d e]) =
        insert u (crawled_of (all_results_acc s))"
    by (simp add: crawled_of_def)
  have a: "attempts (map shape (all_results_acc s) @ [(u, True), (u, False)]) =
        attempts (map shape (all_results_acc s)) @ [(u, Failed_after_fetch)]"
    by (rule attempts_snoc_pair)
  show ?thesis using assms(1) un nu
    by (simp add: trace_inv_def c a attempts_ok_snoc returned_of_shapes)
qed

lemma trace_inv_failure:
  assumes "trace_inv V s" and "u \<notin> crawled_urls s"
  shows "trace_inv V (on_failure d u e (s\<lparr>world := w, events := events s @ [Fetch u]\<rparr>))"
proof -
  have un: "u \<notin> V" "u \<notin> crawled_of (all_results_acc s)" using assms by (simp_all add: trace_inv_def)
  then have "(u, True) \<notin> set (map shape (all_results_acc s))" by (simp add: shape_mem)
  then have a: "attempts (map shape (all_results_acc s) @ [(u, False)]) =
        attempts (map shape (all_results_acc s)) @ [(u, Fetch_failed)]"
    by (rule attempts_snoc_failed)
  show ?thesis using assms(1) un
    by (simp add: trace_inv_def a attempts_ok_snoc returned_of_shapes)
qed

lemma for_loop_trace_inv:
  assumes "trace_inv V s"
  shows "trace_inv V (for_loop so be d cl s)"
proof (rule for_loop_invariant[where P = "trace_inv V"])
  show "trace_inv V s" by (rule assms)
next
  fix t :: "'a frame" and u md
  assume "trace_inv V t" "u \<notin> crawled_urls t"
  then show "trace_inv V (on_success so d u md (t\<lparr>world := snd (be (world t) u), events := events t @ [Fetch u]\<rparr>))"
    by (rule trace_inv_success)
next
  fix t :: "'a frame" and u md e
  assume "trace_inv V t" "u \<notin> crawled_urls t"
  then show "trace_inv V (on_print_error d u md e (t\<lparr>world := snd (be (world t) u), events := events t @ [Fetch u]\<rparr>))"
    by (rule trace_inv_print_error)
next
  fix t :: "'a frame" and u e
  assume "trace_inv V t" "u \<notin> crawled_urls t"
  then show "trace_inv V (on_failure d u e (t\<lparr>world := snd (be (world t) u), events := events t @ [Fetch u]\<rparr>))"
    by (rule trace_inv_failure)
qed

lemma trace_inv_fields:
  "events t = events s \<Longrightarrow> all_results_acc t = all_results_acc s \<Longrightarrow>
   crawled_urls t = crawled_urls s \<Longrightarrow> trace_inv V t = trace_inv V s"
  by (simp add: trace_inv_def)

lemma run_level_trace_inv:
  assumes "trace_inv V s"
  shows "trace_inv V (run_level so be cl s)"
proof -
  define s0 where "s0 = s\<lparr>next_level := [], level_results := [], pages_at_level := 0\<rparr>"
  have "trace_inv V s0 = trace_inv V s" unfolding s0_def by (rule trace_inv_fields) simp_all
  then have "trace_inv V (for_loop so be (snd (hd cl)) cl s0)"
    using assms by (intro for_loop_trace_inv) simp
  moreover have "trace_inv V (run_level so be cl s) = trace_inv V (for_loop so be (snd (hd cl)) cl s0)"
    by (rule trace_inv_fields) (simp_all add: run_level_def Let_def s0_def)
  ultimately show ?thesis by simp
qed

lemma successes_at_append [simp]:
  "successes_at d (rs @ rs') = successes_at d rs + successes_at d rs'"
  by (simp add: successes_at_def)

lemma successes_at_le: "successes_at d rs \<le> length (filter success rs)"
proof -
  have "filter (\<lambda>r. success r \<and> depth r = d) rs = filter (\<lambda>r. depth r = d) (filter success rs)"
    by (simp add: conj_commute)
  then show ?thesis unfolding successes_at_def by (metis length_filter_le)
qed

lemma successes_at_none:
  "list_all (\<lambda>r. depth r \<noteq> d) rs \<Longrightarrow> successes_at d rs = 0"
  by (induction rs) (simp_all add: successes_at_def)

lemma run_inv_enter: "run_inv c [(start_url, 0)] (enter c w)"
  by (simp add: run_inv_def trace_inv_def enter_def crawled_of_def successes_at_def)

lemma run_inv_step:
  assumes inv: "run_inv c cl s" and ne: "cl \<noteq> []" and le: "snd (hd cl) \<le> max_depth s"
  shows "run_inv c (next_level (run_level so be cl s)) (run_level so be cl s)"
proof -
  define s' where "s' = run_level so be cl s"
  define lr where "lr = level_results s'"
  define dl where "dl = snd (hd cl)"
  have acc: "all_results_acc s' = all_results_acc s @ lr"
    and cr: "crawled_urls s' = crawled_urls s \<union> crawled_of lr"
    and dp: "list_all (\<lambda>r. depth r = dl) lr"
    and cnt: "int (length (filter success lr)) \<le> max 0 (max_pages_per_level s)"
    unfolding s'_def lr_def dl_def by (rule run_level_results)+
  have nl: "\<forall>x \<in> set (next_level s'). snd x = dl + 1"
    unfolding s'_def dl_def by (rule run_level_next_depth)
  have old_lt: "list_all (\<lambda>r. depth r < dl) (all_results_acc s)"
  proof -
    have "hd cl \<in> set cl" using ne by simp
    then show ?thesis using inv unfolding run_inv_def dl_def list_all_iff by blast
  qed
  have c1: "max_depth s' = max_depth c" "max_pages_per_level s' = max_pages_per_level c"
    using inv by (simp_all add: s'_def run_inv_def)
  have c2: "trace_inv (crawled_urls c) s'"
    unfolding s'_def using inv by (intro run_level_trace_inv) (simp add: run_inv_def)
  have c5: "list_all (\<lambda>r. depth r \<le> max_depth c) (all_results_acc s')"
    using inv dp le unfolding acc run_inv_def dl_def list_all_iff by auto
  have c6: "int (successes_at d (all_results_acc s')) \<le> max 0 (max_pages_per_level c)" for d
  proof (cases "d = dl")
    case True
    have "successes_at d (all_results_acc s) = 0"
      using old_lt True by (intro successes_at_none) (auto simp: list_all_iff)
    moreover have "int (successes_at d lr) \<le> max 0 (max_pages_per_level c)"
      using successes_at_le[of d lr] cnt inv by (simp add: run_inv_def)
    ultimately show ?thesis by (simp add: acc)
  next
    case False
    have "successes_at d lr = 0"
      using dp False by (intro successes_at_none) (auto simp: list_all_iff)
    then show ?thesis using inv by (simp add: acc run_inv_def)
  qed
  have c7: "list_all (\<lambda>r. list_all (\<lambda>x. depth r < snd x) (next_level s')) (all_results_acc s')"
    using old_lt dp nl unfolding acc list_all_iff by fastforce
  have c8: "list_all (\<lambda>x. snd x = snd (hd (next_level s'))) (next_level s')"
    using nl by (cases "next_level s'") (auto simp: list_all_iff)
  show ?thesis
    unfolding s'_def[symmetric] run_inv_def using c1 c2 c5 c6 c7 c8 by blast
qed

lemma while_loop_run_inv:
  "\<exists>cl. run_inv c cl (while_loop so be [(start_url, 0)] (enter c w))"
  by (rule while_loop_invariant[where I = "run_inv c" and Q = "\<lambda>s. \<exists>cl. run_inv c cl s"])
     (auto intro: run_inv_enter run_inv_step)

lemma crawl_fields:
  "all_results (returned (crawl_depth_limited so be c w start_url)) =
     all_results_acc (while_loop so be [(start_url, 0)] (enter c w))"
  "effects (crawl_depth_limited so be c w start_url) =
     events (while_loop so be [(start_url, 0)] (enter c w))"
  "crawled_urls (self_after (crawl_depth_limited so be c w start_url)) =
     crawled_urls (while_loop so be [(start_url, 0)] (enter c w))"
  "world_after (crawl_depth_limited so be c w start_url) =
     world (while_loop so be [(start_url, 0)] (enter c w))"
  "total_pages (returned (crawl_depth_limited so be c w start_url)) =
     length (all_results_acc (while_loop so be [(start_url, 0)] (enter c w)))"
  "successful_pages (returned (crawl_depth_limited so be c w start_url)) =
     length (filter success (all_results_acc (while_loop so be [(start_url, 0)] (enter c w))))"
  "results_by_depth (returned (crawl_depth_limited so be c w start_url)) =
     depth_results (while_loop so be [(start_url, 0)] (enter c w))"
  "depth_results (self_after (crawl_depth_limited so be c w start_url)) =
     depth_results (while_loop so be [(start_url, 0)] (enter c w))"
  by (simp_all add: crawl_depth_limited_def summarize_def Let_def)

lemma fetched_urls_append [simp]: "fetched_urls (es @ es') = fetched_urls es @ fetched_urls es'"
  by (induction es rule: fetched_urls.induct) simp_all

lemma fetched_urls_attempts:
  "fetched_urls (concat (map (attempt_events sleeps) ts)) = map fst ts"
  by (induction ts) auto

lemma while_loop_too_deep:
  "cl \<noteq> [] \<Longrightarrow> snd (hd cl) > max_depth s \<Longrightarrow> while_loop so be cl s = s"
  by (simp add: while_loop.simps[of so be cl s])

lemma for_loop_cap_reached:
  "max_pages_per_level s \<le> pages_at_level s \<Longrightarrow> for_loop so be d cl s = s"
proof (induction cl)
  case Nil
  show ?case by simp
next
  case (Cons item rest)
  obtain u ud where item: "item = (u, ud)" by (cases item)
  show ?case using Cons unfolding item for_loop_Cons by simp
qed

lemma run_level_cap_reached:
  "max_pages_per_level s < 1 \<Longrightarrow>
   run_level so be cl s =
     s\<lparr>next_level := [], level_results := [], pages_at_level := 0,
       depth_results := AList.update (snd (hd cl)) [] (depth_results s)\<rparr>"
  by (simp add: run_level_def Let_def for_loop_cap_reached)

lemma while_loop_Nil [simp]: "while_loop so be [] s = s"
  by (simp add: while_loop.simps[of so be "[]" s])

lemma while_loop_no_pages:
  assumes "max_pages_per_level s < 1 \<or> max_depth s < 0"
  shows "while_loop so be [(start_url, 0)] s =
     (if max_depth s < 0 then s
      else s\<lparr>next_level := [], level_results := [], pages_at_level := 0,
             depth_results := AList.update 0 [] (depth_results s)\<rparr>)"
proof (cases "max_depth s < 0")
  case True
  then show ?thesis by (simp add: while_loop.simps[of so be "[(start_url, 0)]" s])
next
  case False
  with assms have "max_pages_per_level s < 1" by simp
  then show ?thesis using False
    by (simp add: while_loop.simps[of so be "[(start_url, 0)]" s] run_level_cap_reached Let_def)
qed

lemma update_new_key: "k \<notin> fst ` set al \<Longrightarrow> AList.update k v al = al @ [(k, v)]"
  by (induction al) auto

lemma fresh_inv_step:
  assumes inv: "fresh_inv n cl s" and ne: "cl \<noteq> []"
  shows "fresh_inv (Suc n) (next_level (run_level so be cl s)) (run_level so be cl s)"
proof -
  have d: "snd (hd cl) = int n" using inv ne by (cases cl) (auto simp: fresh_inv_def)
  have "int n \<notin> fst ` set (depth_results s)"
  proof -
    have "fst ` set (depth_results s) = set (map int [0..<n])"
      using inv by (metis fresh_inv_def set_map)
    then show ?thesis by auto
  qed
  then have "map fst (depth_results (run_level so be cl s)) = map int [0..<Suc n]"
    using inv by (simp add: run_level_depth_results d update_new_key fresh_inv_def)
  moreover have "list_all (\<lambda>x. snd x = int (Suc n)) (next_level (run_level so be cl s))"
    using run_level_next_depth[of so be cl s] by (simp add: d list_all_iff)
  ultimately show ?thesis by (simp add: fresh_inv_def)
qed

lemma while_loop_fresh:
  assumes "0 \<le> md"
  shows "\<exists>n>0. map fst (depth_results (while_loop so be [(start_url, 0)] (enter (init md mppl) w)))
            = map int [0..<n]"
proof (rule while_loop_invariant[where I = "\<lambda>cl s. \<exists>n. fresh_inv n cl s"])
  show "\<exists>n. fresh_inv n [(start_url, 0)] (enter (init md mppl) w)"
    using assms by (intro exI[of _ 0]) (simp add: fresh_inv_def enter_def init_def)
next
  fix cl and s :: "'a frame"
  assume "\<exists>n. fresh_inv n cl s" "cl \<noteq> []"
  then show "\<exists>n. fresh_inv n (next_level (run_level so be cl s)) (run_level so be cl s)"
    using fresh_inv_step by blast
next
  fix cl and s :: "'a frame"
  assume "\<exists>n. fresh_inv n cl s" and stop: "cl = [] \<or> max_depth s < snd (hd cl)"
  then obtain n where inv: "fresh_inv n cl s" by blast
  have "n > 0"
  proof (rule ccontr)
    assume "\<not> n > 0"
    then have "n = 0" by simp
    with inv have "cl \<noteq> []" "0 \<le> max_depth s" "list_all (\<lambda>x. snd x = 0) cl"
      by (simp_all add: fresh_inv_def)
    then have "snd (hd cl) = 0" by (cases cl) auto
    with stop \<open>cl \<noteq> []\<close> \<open>0 \<le> max_depth s\<close> show False by simp
  qed
  then show "\<exists>n>0. map fst (depth_results s) = map int [0..<n]"
    using inv by (auto simp: fresh_inv_def)
qed

lemma Max_int_upt: "n > 0 \<Longrightarrow> Max (set (map int [0..<n])) = int n - 1"
proof (induction n)
  case 0
  then show ?case by simp
next
  case (Suc n)
  show ?case
  proof (cases "n = 0")
    case True
    then show ?thesis by simp
  next
    case False
    then have "Max (set (map int [0..<n])) = int n - 1" using Suc.IH by simp
    moreover have "set (map int [0..<n]) \<noteq> {}" using False by simp
    ultimately show ?thesis by (simp add: Max_insert max_def)
  qed
qed

lemma keys_inv_step:
  assumes inv: "keys_inv c n cl s" and ne: "cl \<noteq> []" and le: "snd (hd cl) \<le> max_depth s"
  shows "keys_inv c (Suc n) (next_level (run_level so be cl s)) (run_level so be cl s)"
proof -
  have d: "snd (hd cl) = int n" using inv ne by (cases cl) (auto simp: keys_inv_def)
  have "fst ` set (depth_results (run_level so be cl s)) =
          fst ` set (depth_results c) \<union> int ` {0..<Suc n}"
    using inv by (auto simp: run_level_depth_results d dom_update keys_inv_def)
  moreover have "list_all (\<lambda>x. snd x = int (Suc n)) (next_level (run_level so be cl s))"
    using run_level_next_depth[of so be cl s] by (simp add: d list_all_iff)
  moreover have "0 \<le> max_depth c" using le d inv by (simp add: keys_inv_def)
  ultimately show ?thesis using inv by (simp add: keys_inv_def)
qed

lemma while_loop_keys:
  "\<exists>n. fst ` set (depth_results (while_loop so be [(start_url, 0)] (enter c w))) =
          fst ` set (depth_results c) \<union> int ` {0..<n}
        \<and> (0 \<le> max_depth c \<longrightarrow> 0 < n) \<and> (max_depth c < 0 \<longrightarrow> n = 0)"
proof (rule while_loop_invariant[where I = "\<lambda>cl s. \<exists>n. keys_inv c n cl s"])
  show "\<exists>n. keys_inv c n [(start_url, 0)] (enter c w)"
    by (intro exI[of _ 0]) (simp add: keys_inv_def enter_def)
next
  fix cl and s :: "'a frame"
  assume "\<exists>n. keys_inv c n cl s" "cl \<noteq> []" "snd (hd cl) \<le> max_depth s"
  then show "\<exists>n. keys_inv c n (next_level (run_level so be cl s)) (run_level so be cl s)"
    using keys_inv_step by blast
next
  fix cl and s :: "'a frame"
  assume "\<exists>n. keys_inv c n cl s" and stop: "cl = [] \<or> max_depth s < snd (hd cl)"
  then obtain n where inv: "keys_inv c n cl s" by blast
  have keys: "fst ` set (depth_results s) = fst ` set (depth_results c) \<union> int ` {0..<n}"
    using inv by (simp add: keys_inv_def)
  have a: "0 \<le> max_depth c \<longrightarrow> 0 < n"
  proof (rule ccontr)
    assume "\<not> (0 \<le> max_depth c \<longrightarrow> 0 < n)"
    then have md: "0 \<le> max_depth c" and "n = 0" by simp_all
    with inv have "cl \<noteq> []" "list_all (\<lambda>x. snd x = 0) cl" "max_depth s = max_depth c"
      by (simp_all add: keys_inv_def)
    then have "snd (hd cl) = 0" "cl \<noteq> []" "max_depth s = max_depth c" by (cases cl; auto)+
    with stop md show False by simp
  qed
  have b: "max_depth c < 0 \<longrightarrow> n = 0" using inv by (auto simp: keys_inv_def)
  show "\<exists>n. fst ` set (depth_results s) = fst ` set (depth_results c) \<union> int ` {0..<n}
        \<and> (0 \<le> max_depth c \<longrightarrow> 0 < n) \<and> (max_depth c < 0 \<longrightarrow> n = 0)"
    using keys a b by blast
qed





section \<open>Properties of the page-count crawler\<close>

lemma rc_on_success_fields [simp]:
  "max_pages (rc_on_success so u md s) = max_pages s"
  "delay (rc_on_success so u md s) = delay s"
  "rc_crawled_urls (rc_on_success so u md s) = finsert u (rc_crawled_urls s)"
  "crawl_results (rc_on_success so u md s) = crawl_results s @ [rc_success_page u md]"
  "rc_events (rc_on_success so u md s) = rc_events s @ (if delay s > 0 then [Sleep] else [])"
  "rc_world (rc_on_success so u md s) = rc_world s"
  by (simp_all add: rc_on_success_def rc_record_success_def Let_def)

lemma rc_on_success_queue:
  "queue (rc_on_success so u md s) =
     (if int (fcard (finsert u (rc_crawled_urls s))) < max_pages s
      then enqueue_links (finsert u (rc_crawled_urls s))
             (rc_extract_guardian_links so (markdown_or_empty md) u) (queue s)
      else queue s)"
  by (simp add: rc_on_success_def rc_record_success_def Let_def)

lemma rc_on_failure_fields [simp]:
  "max_pages (rc_on_failure u e s) = max_pages s"
  "delay (rc_on_failure u e s) = delay s"
  "rc_crawled_urls (rc_on_failure u e s) = rc_crawled_urls s"
  "crawl_results (rc_on_failure u e s) = crawl_results s @ [rc_failed_page u e]"
  "rc_events (rc_on_failure u e s) = rc_events s"
  "rc_world (rc_on_failure u e s) = rc_world s"
  "queue (rc_on_failure u e s) = queue s"
  by (simp_all add: rc_on_failure_def)

lemma rc_on_print_error_fields [simp]:
  "max_pages (rc_on_print_error u md e s) = max_pages s"
  "delay (rc_on_print_error u md e s) = delay s"
  "rc_crawled_urls (rc_on_print_error u md e s) = finsert u (rc_crawled_urls s)"
  "crawl_results (rc_on_print_error u md e s) =
     crawl_results s @ [rc_success_page u md, rc_failed_page u e]"
  "rc_events (rc_on_print_error u md e s) = rc_events s"
  "rc_world (rc_on_print_error u md e s) = rc_world s"
  "queue (rc_on_print_error u md e s) = queue s"
  by (simp_all add: rc_on_print_error_def rc_record_success_def rc_on_failure_def Let_def)

lemma rc_body_unfold:
  "rc_body so be u s =
     (if u |\<in>| rc_crawled_urls s then s
      else (case fst (be (rc_world s) u) of
              Returned md \<Rightarrow> rc_on_success so u md
                 (s\<lparr>rc_world := snd (be (rc_world s) u), rc_events := rc_events s @ [Fetch u]\<rparr>)
            | Returned_unprintable md e \<Rightarrow> rc_on_print_error u md e
                 (s\<lparr>rc_world := snd (be (rc_world s) u), rc_events := rc_events s @ [Fetch u]\<rparr>)
            | Raised e \<Rightarrow> rc_on_failure u e
                 (s\<lparr>rc_world := snd (be (rc_world s) u), rc_events := rc_events s @ [Fetch u]\<rparr>)))"
  by (cases "be (rc_world s) u") (simp add: rc_body_def split: fetch_outcome.splits)

lemma rc_body_max_pages [simp]: "max_pages (rc_body so be u s) = max_pages s"
  by (simp add: rc_body_unfold split: fetch_outcome.splits)

lemma rc_body_progress:
  "fcard (rc_crawled_urls (rc_body so be u s)) = Suc (fcard (rc_crawled_urls s))
   \<or> (rc_crawled_urls (rc_body so be u s) = rc_crawled_urls s \<and> queue (rc_body so be u s) = queue s)"
  by (simp add: rc_body_unfold fcard_finsert_disjoint split: fetch_outcome.splits)

termination rc_while
proof (relation "measures [\<lambda>(so, be, s). nat (max_pages s - int (fcard (rc_crawled_urls s))),
                           \<lambda>(so, be, s). length (queue s)]", goal_cases)
  case 1
  show ?case by simp
next
  case (2 so be s current_url rest)
  define s' where "s' = rc_body so be current_url (s\<lparr>queue := rest\<rparr>)"
  have mp: "max_pages s' = max_pages s" by (simp add: s'_def)
  from rc_body_progress[of so be current_url "s\<lparr>queue := rest\<rparr>"]
  have "fcard (rc_crawled_urls s') = Suc (fcard (rc_crawled_urls s))
        \<or> (rc_crawled_urls s' = rc_crawled_urls s \<and> queue s' = rest)"
    by (simp add: s'_def)
  then show ?case
    using 2 mp unfolding s'_def[symmetric] by auto
qed

declare rc_while.simps [simp del]

lemma rc_while_invariant:
  assumes "P s"
    and "\<And>s u rest. P s \<Longrightarrow> queue s = u # rest \<Longrightarrow> int (fcard (rc_crawled_urls s)) < max_pages s \<Longrightarrow>
           P (rc_body so be u (s\<lparr>queue := rest\<rparr>))"
  shows "P (rc_while so be s)"
  using assms
proof (induction so be s rule: rc_while.induct)
  case (1 so be s)
  note start = "1.prems"(1) and step = "1.prems"(2)
  show ?case
  proof (cases "queue s")
    case Nil
    then show ?thesis using start by (simp add: rc_while.simps[of so be s])
  next
    case (Cons u rest)
    show ?thesis
    proof (cases "int (fcard (rc_crawled_urls s)) < max_pages s")
      case True
      have "P (rc_body so be u (s\<lparr>queue := rest\<rparr>))" by (rule step[OF start Cons True])
      then have "P (rc_while so be (rc_body so be u (s\<lparr>queue := rest\<rparr>)))"
        by (rule "1.IH"[OF Cons True _ step])
      then show ?thesis using Cons True by (simp add: rc_while.simps[of so be s])
    next
      case False
      then show ?thesis using Cons start by (simp add: rc_while.simps[of so be s])
    qed
  qed
qed

lemma enqueue_links_distinct: "distinct q \<Longrightarrow> distinct (enqueue_links crawled links q)"
  by (induction crawled links q rule: enqueue_links.induct) simp_all

lemma enqueue_links_set:
  "set (enqueue_links crawled links q) = set q \<union> {link \<in> set links. link |\<notin>| crawled}"
  by (induction crawled links q rule: enqueue_links.induct) auto

lemma rc_body_queue_distinct:
  "distinct (queue s) \<Longrightarrow> distinct (queue (rc_body so be u s))"
  by (simp add: rc_body_unfold rc_on_success_queue enqueue_links_distinct split: fetch_outcome.splits)

lemma rc_while_queue_distinct:
  "distinct (queue s) \<Longrightarrow> distinct (queue (rc_while so be s))"
proof (rule rc_while_invariant[where P = "\<lambda>s. distinct (queue s)"])
  fix s :: "'a rc_frame" and u rest
  assume "distinct (queue s)" "queue s = u # rest"
  then have "distinct (queue (s\<lparr>queue := rest\<rparr>))" by simp
  then show "distinct (queue (rc_body so be u (s\<lparr>queue := rest\<rparr>)))"
    by (rule rc_body_queue_distinct)
qed

lemma rc_shape_pages [simp]:
  "rc_shape (rc_success_page u md) = (u, True)" "rc_shape (rc_failed_page u e) = (u, False)"
  by (simp_all add: rc_shape_def rc_success_page_def rc_failed_page_def)




section \<open>The scenarios, evaluated\<close>

lemma scenario_run_failed_d:
  "scenario_run (Raised e) =
     \<lparr>returned =
        \<lparr>max_depth_reached = 1, total_pages = 4, successful_pages = 2,
         depth_breakdown = [(0, 1), (1, 3)],
         results_by_depth =
           [(0, [success_page page_a 0 (Some content_a)]),
            (1, [success_page page_b 1 (Some []), failed_page page_c 1 ''connection reset'',
                 failed_page page_d 1 e])],
         all_results =
           [success_page page_a 0 (Some content_a), success_page page_b 1 (Some []),
            failed_page page_c 1 ''connection reset'', failed_page page_d 1 e]\<rparr>,
      self_after =
        \<lparr>max_depth = 2, max_pages_per_level = 2, crawled_urls = {page_a, page_b},
         depth_results =
           [(0, [success_page page_a 0 (Some content_a)]),
            (1, [success_page page_b 1 (Some []), failed_page page_c 1 ''connection reset'',
                 failed_page page_d 1 e])]\<rparr>,
      world_after = (),
      effects = [Fetch page_a, Sleep, Fetch page_b, Sleep, Fetch page_c, Fetch page_d]\<rparr>"
  by code_simp

lemma scenario_run_empty_d:
  "scenario_run (Returned None) =
     \<lparr>returned =
        \<lparr>max_depth_reached = 1, total_pages = 4, successful_pages = 3,
         depth_breakdown = [(0, 1), (1, 3)],
         results_by_depth =
           [(0, [success_page page_a 0 (Some content_a)]),
            (1, [success_page page_b 1 (Some []), failed_page page_c 1 ''connection reset'',
                 success_page page_d 1 None])],
         all_results =
           [success_page page_a 0 (Some content_a), success_page page_b 1 (Some []),
            failed_page page_c 1 ''connection reset'', success_page page_d 1 None]\<rparr>,
      self_after =
        \<lparr>max_depth = 2, max_pages_per_level = 2, crawled_urls = {page_a, page_b, page_d},
         depth_results =
           [(0, [success_page page_a 0 (Some content_a)]),
            (1, [success_page page_b 1 (Some []), failed_page page_c 1 ''connection reset'',
                 success_page page_d 1 None])]\<rparr>,
      world_after = (),
      effects = [Fetch page_a, Sleep, Fetch page_b, Sleep, Fetch page_c, Fetch page_d, Sleep]\<rparr>"
  by code_simp

lemma relinked_run_value:
  "relinked_run =
     \<lparr>returned =
        \<lparr>max_depth_reached = 2, total_pages = 4, successful_pages = 2,
         depth_breakdown = [(0, 1), (1, 2), (2, 1)],
         results_by_depth =
           [(0, [success_page page_a 0 (Some content_bc)]),
            (1, [failed_page page_b 1 ''timeout'', success_page page_c 1 (Some page_b)]),
            (2, [failed_page page_b 2 ''timeout''])],
         all_results =
           [success_page page_a 0 (Some content_bc), failed_page page_b 1 ''timeout'',
            success_page page_c 1 (Some page_b), failed_page page_b 2 ''timeout'']\<rparr>,
      self_after =
        \<lparr>max_depth = 2, max_pages_per_level = 2, crawled_urls = {page_a, page_c},
         depth_results =
           [(0, [success_page page_a 0 (Some content_bc)]),
            (1, [failed_page page_b 1 ''timeout'', success_page page_c 1 (Some page_b)]),
            (2, [failed_page page_b 2 ''timeout''])]\<rparr>,
      world_after = (),
      effects = [Fetch page_a, Sleep, Fetch page_b, Fetch page_c, Sleep, Fetch page_b]\<rparr>"
  by code_simp

lemma shared_run_value:
  "shared_run =
     \<lparr>returned =
        \<lparr>max_depth_reached = 2, total_pages = 3, successful_pages = 3,
         depth_breakdown = [(0, 1), (1, 2), (2, 0)],
         results_by_depth =
           [(0, [success_page page_a 0 (Some content_bc)]),
            (1, [success_page page_b 1 (Some page_c), success_page page_c 1 None]),
            (2, [])],
         all_results =
           [success_page page_a 0 (Some content_bc), success_page page_b 1 (Some page_c),
            success_page page_c 1 None]\<rparr>,
      self_after =
        \<lparr>max_depth = 2, max_pages_per_level = 2, crawled_urls = {page_a, page_b, page_c},
         depth_results =
           [(0, [success_page page_a 0 (Some content_bc)]),
            (1, [success_page page_b 1 (Some page_c), success_page page_c 1 None]),
            (2, [])]\<rparr>,
      world_after = (),
      effects = [Fetch page_a, Sleep, Fetch page_b, Sleep, Fetch page_c, Sleep]\<rparr>"
  by code_simp



lemma unprintable_run_values:
  "effects unprintable_run = [Fetch page_a, Sleep, Fetch page_b, Fetch page_c]"
  "all_results (returned unprintable_run) =
     [success_page page_a 0 (Some content_bc), failed_page page_b 1 ''timeout'',
      success_page page_c 1 None, failed_page page_c 1 ''surrogates not allowed'']"
  "attempts (map shape (all_results (returned unprintable_run))) =
     [(page_a, Completed), (page_b, Fetch_failed), (page_c, Failed_after_fetch)]"
  by code_simp+

lemma second_run_values:
  "max_depth_reached (returned second_run) = 1"
  "depth_breakdown (returned second_run) = [(0, 0), (1, 3)]"
  "all_results (returned second_run) = []"
  "effects second_run = []"
  "next_level second_run_level_0 = []"
  "depth_results (enter used_crawler ()) =
     [(0, [success_page page_a 0 (Some content_a)]),
      (1, [success_page page_b 1 (Some []), failed_page page_c 1 ''connection reset'',
           failed_page page_d 1 ''timeout''])]"
  by code_simp+


lemma two_parents_levels:
  "next_level two_parents_after_0 = [(page_b, 1), (page_c, 1)]"
  "next_level two_parents_after_1 = [(page_d, 2), (page_d, 2)]"
  by code_simp+

lemma two_parents_run_value:
  "effects two_parents_run =
     [Fetch page_a, Sleep, Fetch page_b, Sleep, Fetch page_c, Sleep, Fetch page_d, Fetch page_d]"
  "all_results (returned two_parents_run) =
     [success_page page_a 0 (Some content_bc), success_page page_b 1 (Some page_d),
      success_page page_c 1 (Some page_d), failed_page page_d 2 ''timeout'',
      failed_page page_d 2 ''timeout'']"
  by code_simp+

lemma insertion_order_ok: "set_order_ok insertion_order"
  by (simp add: set_order_ok_def insertion_order_def)

lemma hashed_order_ok: "set_order_ok hashed_order"
  by (simp add: set_order_ok_def hashed_order_def insertion_order_def)

lemma extract_values:
  "findall_direct content_two = [page_b, page_hh]"
  "rc_extract_guardian_links hashed_order content_two page_a = [page_hh, page_b]"
  "dl_extract_guardian_links insertion_order content_six =
     [page_b, page_c, page_d, page_e, page_f, page_g]"
  "rc_extract_guardian_links insertion_order content_six page_a =
     [page_b, page_c, page_d, page_e, page_f]"
  by code_simp+

lemma rc_runs_value:
  "rc_effects two_parents_rc_run =
     [Fetch page_a, Sleep, Fetch page_b, Sleep, Fetch page_c, Sleep, Fetch page_d]"
  "rc_effects scenario_rc_run =
     [Fetch page_a, Sleep, Fetch page_b, Sleep, Fetch page_c, Fetch page_d]"
  "enqueue_links {|page_a, page_b, page_c|} [page_d] [page_d] = [page_d]"
  by code_simp+

lemma second_run_state:
  "while_loop insertion_order (scenario_backend (Raised ''timeout'')) [(page_a, 0)] (enter used_crawler ())
     = second_run_level_0"
  by code_simp

section \<open>Repeated fetches\<close>

text \<open>
  Claim C1, as stated: no URL is passed to the backend more than once, there is at most one
  page result per URL, and every URL that was fetched, with or without success, is among the
  crawled URLs. The code adds a URL to \<^verbatim>\<open>crawled_urls\<close> only after the backend has returned
  (line 95): when the fetch of B fails and a page fetched later links to B, B is fetched a
  second time and has two page results, and B is not among the crawled URLs.
\<close>

theorem failed_page_fetched_twice:
  "fetched_urls (effects relinked_run) = [page_a, page_b, page_c, page_b]
   \<and> \<not> distinct (fetched_urls (effects relinked_run))
   \<and> \<not> distinct (map url (all_results (returned relinked_run)))
   \<and> page_b \<notin> crawled_urls (self_after relinked_run)"
  by (simp add: relinked_run_value page_b_def page_a_def page_c_def)

text \<open>
  Claim C1, amended: in every call, each fetch was of a URL that was not among the crawled
  URLs at that moment, and the crawled URLs are those of the crawler before the call together
  with the URLs of the successful pages, which are the URLs whose fetch has returned. So no
  URL is fetched again after a fetch of it has returned, and no URL has two successful pages.
  A URL whose fetch failed is not recorded and stays eligible. Every fetch has its page, and
  a second, failed one when the \<^verbatim>\<open>try\<close> block raises after the backend has returned: the
  URLs passed to the backend are those of the fetches read back from the pages, in order. A
  link that is a crawled URL at the moment it is found is not put into the next level. In
  the run where the title of C cannot be printed, C is fetched once and has two pages.
\<close>

theorem crawled_url_not_fetched_again:
  "attempts_ok (crawled_urls c)
     (attempts (map shape (all_results (returned (crawl_depth_limited so be c w start_url)))))
   \<and> crawled_urls (self_after (crawl_depth_limited so be c w start_url)) =
       crawled_urls c \<union> crawled_of (all_results (returned (crawl_depth_limited so be c w start_url)))
   \<and> distinct (map url (filter success (all_results (returned (crawl_depth_limited so be c w start_url)))))
   \<and> fetched_urls (effects (crawl_depth_limited so be c w start_url)) =
       map fst (attempts (map shape (all_results (returned (crawl_depth_limited so be c w start_url)))))
   \<and> list_all (\<lambda>x. fst x \<notin> crawled_urls (on_success so d u md s))
       (drop (length (next_level s)) (next_level (on_success so d u md s)))
   \<and> map url (all_results (returned unprintable_run)) = [page_a, page_b, page_c, page_c]
   \<and> fetched_urls (effects unprintable_run) = [page_a, page_b, page_c]"
proof -
  define t where "t = while_loop so be [(start_url, 0)] (enter c w)"
  obtain cl where "run_inv c cl t"
    unfolding t_def using while_loop_run_inv[of c so be start_url w] by blast
  then have tr: "trace_inv (crawled_urls c) t" by (simp add: run_inv_def)
  have c1: "attempts_ok (crawled_urls c) (attempts (map shape (all_results_acc t)))"
    and c2: "crawled_urls t = crawled_urls c \<union> crawled_of (all_results_acc t)"
    and c3: "distinct (map url (filter success (all_results_acc t)))"
    and ev: "events t = concat (map (attempt_events True) (attempts (map shape (all_results_acc t))))"
    using tr by (simp_all add: trace_inv_def)
  have c4: "fetched_urls (events t) = map fst (attempts (map shape (all_results_acc t)))"
    unfolding ev by (rule fetched_urls_attempts)
  have c5: "list_all (\<lambda>x. fst x \<notin> crawled_urls (on_success so d u md s))
       (drop (length (next_level s)) (next_level (on_success so d u md s)))"
    by (auto simp: on_success_next_level list_all_iff)
  show ?thesis using c1 c2 c3 c4 c5 by (simp add: crawl_fields t_def unprintable_run_values)
qed

section \<open>The cap on the pages of a level\<close>

text \<open>
  Claim C2, as stated: at every depth at most \<open>max_pages_per_level\<close> pages are recorded,
  successful or failed, because the URL is added to the crawled URLs and the counter is
  incremented before the backend is called. The code increments \<^verbatim>\<open>pages_at_level\<close> after
  the backend has returned (line 96), so a failed fetch is recorded without being counted:
  in the scenario, with a cap of 2, three pages are recorded at depth 1.
\<close>

theorem failed_pages_exceed_cap:
  "max_pages_per_level (self_after (scenario_run (Raised ''timeout''))) = 2
   \<and> pages_at 1 (all_results (returned (scenario_run (Raised ''timeout'')))) = 3
   \<and> depth_breakdown (returned (scenario_run (Raised ''timeout''))) = [(0, 1), (1, 3)]"
  by (simp add: scenario_run_failed_d pages_at_def)

text \<open>
  Claim C2, amended: at every depth \<open>d\<close>, the number of successful pages recorded at depth
  \<open>d\<close> is at most \<open>max_pages_per_level\<close> (none when the cap is negative). Failed pages are
  recorded without counting against the cap.
\<close>

theorem successful_pages_within_cap:
  "int (successes_at d (all_results (returned (crawl_depth_limited so be c w start_url))))
     \<le> max 0 (max_pages_per_level c)"
proof -
  obtain cl where inv: "run_inv c cl (while_loop so be [(start_url, 0)] (enter c w))"
    using while_loop_run_inv[of c so be start_url w] by blast
  then show ?thesis by (simp add: run_inv_def crawl_fields)
qed

section \<open>The scenario of the specification\<close>

text \<open>
  Claim C3, as stated: with seed A, \<open>max_depth = 2\<close> and \<open>max_pages_per_level = 2\<close>, where A
  links to B, C and D, B succeeds without links and C fails, the run fetches only A, B and C
  and returns \<open>total_pages = 3\<close> and the counts \<open>{0: 1, 1: 2}\<close>. The code does not: the failed
  fetch of C does not count against the two pages of the level, so D is fetched as well.
  Here the fetch of D fails too.
\<close>

theorem scenario_counterexample:
  "Fetch page_d \<in> set (effects (scenario_run (Raised ''timeout'')))
   \<and> page_d \<in> url ` set (all_results (returned (scenario_run (Raised ''timeout''))))
   \<and> total_pages (returned (scenario_run (Raised ''timeout''))) \<noteq> 3
   \<and> depth_breakdown (returned (scenario_run (Raised ''timeout''))) \<noteq> [(0, 1), (1, 2)]"
  by (simp add: scenario_run_failed_d)

text \<open>
  Claim C3, amended: in this scenario the run fetches A, B, C and D, in this order. When the
  fetch of D fails (with any message \<open>e\<close>), the run returns \<open>total_pages = 4\<close>,
  \<open>successful_pages = 2\<close>, \<open>max_depth_reached = 1\<close> and the counts \<open>{0: 1, 1: 3}\<close>, and the
  crawled URLs are A and B. When the fetch of D succeeds without content, three of the four
  pages are successful and D is a crawled URL too.
\<close>

theorem scenario_fetches_four_pages:
  "effects (scenario_run (Raised e)) =
     [Fetch page_a, Sleep, Fetch page_b, Sleep, Fetch page_c, Fetch page_d]
   \<and> map url (all_results (returned (scenario_run (Raised e)))) = [page_a, page_b, page_c, page_d]
   \<and> map success (all_results (returned (scenario_run (Raised e)))) = [True, True, False, False]
   \<and> total_pages (returned (scenario_run (Raised e))) = 4
   \<and> successful_pages (returned (scenario_run (Raised e))) = 2
   \<and> max_depth_reached (returned (scenario_run (Raised e))) = 1
   \<and> depth_breakdown (returned (scenario_run (Raised e))) = [(0, 1), (1, 3)]
   \<and> crawled_urls (self_after (scenario_run (Raised e))) = {page_a, page_b}
   \<and> map url (all_results (returned (scenario_run (Returned None)))) = [page_a, page_b, page_c, page_d]
   \<and> total_pages (returned (scenario_run (Returned None))) = 4
   \<and> successful_pages (returned (scenario_run (Returned None))) = 3
   \<and> max_depth_reached (returned (scenario_run (Returned None))) = 1
   \<and> depth_breakdown (returned (scenario_run (Returned None))) = [(0, 1), (1, 3)]
   \<and> crawled_urls (self_after (scenario_run (Returned None))) = {page_a, page_b, page_d}"
  by (simp add: scenario_run_failed_d scenario_run_empty_d)

section \<open>Links found on two pages\<close>

text \<open>
  Claim C4 says that a link found on two pages of one depth is put into the next level once.
  \<^verbatim>\<open>DepthLimitedCrawler\<close> tests a link against the crawled URLs only (line 128), where
  \<^verbatim>\<open>RecursiveCrawler\<close> also tests it against its queue (line 117). When A links to B and C
  and both link to D, the level of depth 2 holds D twice; the fetch of D fails, so D is
  fetched twice and has two pages at depth 2. On the same pages \<^verbatim>\<open>RecursiveCrawler\<close> finds
  D in its queue when C links to it, and fetches D once (its queue never holds a URL twice,
  lemma \<open>rc_while_queue_distinct\<close>).
\<close>

theorem next_level_holds_duplicates:
  "next_level two_parents_after_0 = [(page_b, 1), (page_c, 1)]
   \<and> next_level two_parents_after_1 = [(page_d, 2), (page_d, 2)]
   \<and> \<not> distinct (map fst (next_level two_parents_after_1))
   \<and> fetched_urls (effects two_parents_run) = [page_a, page_b, page_c, page_d, page_d]
   \<and> pages_at 2 (all_results (returned two_parents_run)) = 2
   \<and> enqueue_links {|page_a, page_b, page_c|} [page_d] [page_d] = [page_d]
   \<and> fetched_urls (rc_effects two_parents_rc_run) = [page_a, page_b, page_c, page_d]"
  by (simp add: two_parents_levels two_parents_run_value pages_at_def rc_runs_value)

section \<open>Rate limiting\<close>



section \<open>Failures within a level\<close>




section \<open>Depths\<close>

text \<open>
  Claim C7: no page is recorded with a depth greater than \<open>max_depth\<close>; the pages of a level
  are recorded with the depth of the level, and every item put into the next level gets this
  depth plus one; links are extracted only when the depth is below \<open>max_depth\<close>; and the loop
  over the levels stops at a level whose depth exceeds \<open>max_depth\<close>, leaving the state as it is.
\<close>

theorem depth_bounded:
  "list_all (\<lambda>r. depth r \<le> max_depth c)
     (all_results (returned (crawl_depth_limited so be c w start_url)))
   \<and> list_all (\<lambda>r. depth r = snd (hd cl)) (level_results (run_level so be cl s))
   \<and> list_all (\<lambda>x. snd x = snd (hd cl) + 1) (next_level (run_level so be cl s))
   \<and> next_level (on_success so d u md s) =
       next_level s @
         (if d < max_depth s
          then map (\<lambda>link. (link, d + 1))
                 (filter (\<lambda>link. link \<notin> insert u (crawled_urls s))
                    (take 5 (dl_extract_guardian_links so (markdown_or_empty md))))
          else [])
   \<and> (cl \<noteq> [] \<and> snd (hd cl) > max_depth s \<longrightarrow> while_loop so be cl s = s)"
proof -
  obtain cl' where inv: "run_inv c cl' (while_loop so be [(start_url, 0)] (enter c w))"
    using while_loop_run_inv[of c so be start_url w] by blast
  then have "list_all (\<lambda>r. depth r \<le> max_depth c)
     (all_results (returned (crawl_depth_limited so be c w start_url)))"
    by (simp add: run_inv_def crawl_fields)
  moreover have "list_all (\<lambda>x. snd x = snd (hd cl) + 1) (next_level (run_level so be cl s))"
    using run_level_next_depth[of so be cl s] by (simp add: list_all_iff)
  ultimately show ?thesis
    using run_level_results(3)[of cl so be s] on_success_next_level[of so d u md s]
      while_loop_too_deep[of cl s so be]
    by blast
qed

theorem depth_bounded_witness:
  "list_all (\<lambda>r. depth r \<le> 2) (all_results (returned (scenario_run (Raised ''timeout''))))
   \<and> while_loop insertion_order (scenario_backend (Raised ''timeout'')) [(page_b, 3)] (enter (init 2 2) ())
       = enter (init 2 2) ()"
proof -
  have "[(page_b, 3::int)] \<noteq> [] \<and> snd (hd [(page_b, 3::int)]) > max_depth (enter (init 2 2) ())"
    by (simp add: enter_def init_def)
  then show ?thesis
    using depth_bounded[of "init 2 2" insertion_order "scenario_backend (Raised ''timeout'')" "()" page_a
        "[(page_b, 3)]" "enter (init 2 2) ()"]
    by (simp add: scenario_run_def init_def)
qed

section \<open>The link extractors\<close>

text \<open>
  Claim C8, as stated: the extractor returns the links without duplicates, at most five of
  them, in the order of their first occurrence in the content. The order is not kept: both
  extractors collect the links in a set and return \<^verbatim>\<open>list(set(article_links))\<close>, whose order
  is that of the set. With the order \<^const>\<open>hashed_order\<close>, the extractor of
  \<^verbatim>\<open>RecursiveCrawler\<close> returns the second link of the content before the first. And the
  extractor of \<^verbatim>\<open>DepthLimitedCrawler\<close> does not cut its result: for a content with six
  article links it returns six, whatever the order (its caller takes the first five).
\<close>

theorem extractor_order_counterexample:
  "set_order_ok hashed_order
   \<and> findall_direct content_two = [page_b, page_hh]
   \<and> rc_extract_guardian_links hashed_order content_two page_a = [page_hh, page_b]
   \<and> length (dl_extract_guardian_links insertion_order content_six) = 6"
  by (simp add: hashed_order_ok extract_values)

text \<open>
  Claim C8, amended: whatever the iteration order of the sets, the extractor of
  \<^verbatim>\<open>RecursiveCrawler\<close> returns at most five links without duplicates: the first five of
  an enumeration without duplicates of the links that match a pattern and pass the article
  filter, in the order of the set, not of the content. The extractor of
  \<^verbatim>\<open>DepthLimitedCrawler\<close> returns all the links that match its pattern and pass the
  filter, each once. Neither catches exceptions, and neither raises: they are total
  functions of the content, and return no link for the empty content.
\<close>

theorem extractor_distinct_and_capped:
  assumes "set_order_ok set_order"
  shows "distinct (rc_extract_guardian_links set_order content base_url)
    \<and> length (rc_extract_guardian_links set_order content base_url) \<le> 5
    \<and> (\<exists>ys. distinct ys
          \<and> set ys = {link. link \<in> set (findall_direct content @ map snd (findall_markdown content))
                          \<and> is_article link}
          \<and> rc_extract_guardian_links set_order content base_url = take 5 ys)
    \<and> distinct (dl_extract_guardian_links set_order content)
    \<and> set (dl_extract_guardian_links set_order content) =
        {link. link \<in> set (findall_direct content) \<and> is_article link}
    \<and> rc_extract_guardian_links set_order [] base_url = []
    \<and> dl_extract_guardian_links set_order [] = []"
proof -
  have d: "distinct (set_order xs)" and s: "set (set_order xs) = set xs" for xs
    using assms by (simp_all add: set_order_ok_def)
  have e: "set_order [] = []" using s[of "[]"] by simp
  define ys where "ys = set_order (filter is_article
      (set_order (findall_direct content @ map snd (findall_markdown content))))"
  have rc: "rc_extract_guardian_links set_order content base_url = take 5 ys"
    by (simp add: rc_extract_guardian_links_def ys_def Let_def)
  have dy: "distinct ys" unfolding ys_def by (rule d)
  have sy: "set ys = {link. link \<in> set (findall_direct content @ map snd (findall_markdown content))
                          \<and> is_article link}"
    unfolding ys_def s set_filter by simp
  have c1: "distinct (rc_extract_guardian_links set_order content base_url)"
    unfolding rc using dy by (rule distinct_take)
  have c2: "length (rc_extract_guardian_links set_order content base_url) \<le> 5"
    unfolding rc by simp
  have c3: "\<exists>ys. distinct ys
          \<and> set ys = {link. link \<in> set (findall_direct content @ map snd (findall_markdown content))
                          \<and> is_article link}
          \<and> rc_extract_guardian_links set_order content base_url = take 5 ys"
    using dy sy rc by blast
  have c4: "distinct (dl_extract_guardian_links set_order content)"
    by (simp add: dl_extract_guardian_links_def Let_def d)
  have c5: "set (dl_extract_guardian_links set_order content) =
        {link. link \<in> set (findall_direct content) \<and> is_article link}"
    by (simp add: dl_extract_guardian_links_def Let_def s)
  have c6: "rc_extract_guardian_links set_order [] base_url = []"
    by (simp add: rc_extract_guardian_links_def Let_def findall_direct_def findall_markdown_def e)
  have c7: "dl_extract_guardian_links set_order [] = []"
    by (simp add: dl_extract_guardian_links_def Let_def findall_direct_def e)
  show ?thesis using c1 c2 c3 c4 c5 c6 c7 by blast
qed

theorem extractor_distinct_and_capped_witness:
  "distinct (rc_extract_guardian_links insertion_order content_six page_a)
   \<and> length (rc_extract_guardian_links insertion_order content_six page_a) = 5
   \<and> distinct (dl_extract_guardian_links insertion_order content_six)
   \<and> rc_extract_guardian_links insertion_order [] page_a = []"
  using extractor_distinct_and_capped[OF insertion_order_ok, of content_six page_a]
  by (simp add: extract_values)

section \<open>Configurations the specification calls invalid\<close>

text \<open>
  Claim C9, as stated: with \<open>max_pages_per_level < 1\<close> the crawl does not start and the caller
  gets a configuration error. Neither the constructor nor \<^verbatim>\<open>crawl_depth_limited\<close> checks
  the configuration or raises: with a cap of 0 the call enters the loop, records the empty
  level of depth 0 and returns a summary.
\<close>

theorem invalid_configuration_counterexample:
  "returned (crawl_depth_limited insertion_order (scenario_backend (Raised ''timeout'')) (init 2 0) () page_a) =
     \<lparr>max_depth_reached = 0, total_pages = 0, successful_pages = 0,
      depth_breakdown = [(0, 0)], results_by_depth = [(0, [])], all_results = []\<rparr>"
  by code_simp

text \<open>
  Claim C9, amended: the configuration is not checked and no error is raised. With
  \<open>max_pages_per_level < 1\<close> or \<open>max_depth < 0\<close> the call returns a summary without page
  results; the backend is not called, the world and the crawled URLs are as before. When
  \<open>max_depth\<close> is not negative, the empty level of depth 0 is recorded.
\<close>

theorem invalid_configuration_returns:
  assumes "max_pages_per_level c < 1 \<or> max_depth c < 0"
  shows "all_results (returned (crawl_depth_limited so be c w start_url)) = []
    \<and> total_pages (returned (crawl_depth_limited so be c w start_url)) = 0
    \<and> effects (crawl_depth_limited so be c w start_url) = []
    \<and> world_after (crawl_depth_limited so be c w start_url) = w
    \<and> crawled_urls (self_after (crawl_depth_limited so be c w start_url)) = crawled_urls c
    \<and> results_by_depth (returned (crawl_depth_limited so be c w start_url)) =
        (if max_depth c < 0 then depth_results c else AList.update 0 [] (depth_results c))"
proof -
  have "max_pages_per_level (enter c w) < 1 \<or> max_depth (enter c w) < 0"
    using assms by (simp add: enter_def)
  from while_loop_no_pages[OF this, of so be start_url]
  show ?thesis by (simp add: crawl_fields) (simp add: enter_def)
qed

theorem invalid_configuration_returns_witness:
  "all_results (returned (crawl_depth_limited insertion_order (scenario_backend (Raised ''timeout'')) (init 2 0) () page_a)) = []
   \<and> effects (crawl_depth_limited insertion_order (scenario_backend (Raised ''timeout'')) (init 2 0) () page_a) = []
   \<and> results_by_depth (returned (crawl_depth_limited insertion_order (scenario_backend (Raised ''timeout'')) (init 2 0) () page_a)) = [(0, [])]"
proof -
  have "max_pages_per_level (init 2 0) < 1 \<or> max_depth (init 2 0) < 0" by (simp add: init_def)
  from invalid_configuration_returns[OF this, of insertion_order "scenario_backend (Raised ''timeout'')" "()" page_a]
  show ?thesis by (simp add: init_def)
qed

section \<open>Levels without pages\<close>

text \<open>
  Claim C10, as stated: a level can be recorded with no page, and \<open>max_depth_reached\<close> is the
  largest depth whose level began processing. The first part holds. The second does not hold
  of every call: \<^verbatim>\<open>depth_results\<close> is a field of the crawler and keeps the levels of earlier
  calls. A second call on the crawler of the scenario, with the seed A again, processes the
  level of depth 0 only (A is a crawled URL, nothing is fetched and the next level is empty)
  and returns \<open>max_depth_reached = 1\<close>.
\<close>

theorem used_crawler_counterexample:
  "max_depth_reached (returned second_run) = 1
   \<and> depth_breakdown (returned second_run) = [(0, 0), (1, 3)]
   \<and> all_results (returned second_run) = []
   \<and> effects second_run = []
   \<and> while_loop insertion_order (scenario_backend (Raised ''timeout'')) [(page_a, 0)]
        (enter used_crawler ()) = second_run_level_0"
  by (simp add: second_run_values second_run_state)

text \<open>
  Claim C10, amended: a level can be recorded with no page at all, so the counts can hold an
  entry 0. The depths recorded after a call are those recorded in the crawler before the call
  and the depths \<open>0, \<dots>, n - 1\<close> of the \<open>n\<close> levels that the call processed (\<open>n > 0\<close> when
  \<open>max_depth \<ge> 0\<close>, none otherwise), and \<open>max_depth_reached\<close> is the largest of them, or 0 when
  there is none. So in a call on a new crawler with \<open>max_depth \<ge> 0\<close>, \<open>max_depth_reached\<close> is
  \<open>n - 1\<close>, the largest depth whose level began processing, whether or not it has pages. In
  the run where A links to B and C and B links to C, the level of depth 2 holds only C, which
  was crawled at depth 1: the counts are \<open>{0: 1, 1: 2, 2: 0}\<close>, \<open>max_depth_reached\<close> is 2, and no
  page has depth 2.
\<close>

theorem empty_level_recorded:
  "(\<exists>n. fst ` set (results_by_depth (returned (crawl_depth_limited so be c w start_url))) =
          fst ` set (depth_results c) \<union> int ` {0..<n}
        \<and> (0 \<le> max_depth c \<longrightarrow> 0 < n) \<and> (max_depth c < 0 \<longrightarrow> n = 0))
   \<and> max_depth_reached (returned (crawl_depth_limited so be c w start_url)) =
       (if results_by_depth (returned (crawl_depth_limited so be c w start_url)) = [] then 0
        else Max (fst ` set (results_by_depth (returned (crawl_depth_limited so be c w start_url)))))
   \<and> (0 \<le> md \<longrightarrow>
        (\<exists>n>0. map fst (depth_breakdown (returned (crawl_depth_limited so be (init md mppl) w start_url)))
              = map int [0..<n]
            \<and> max_depth_reached (returned (crawl_depth_limited so be (init md mppl) w start_url)) = int n - 1))
   \<and> (md < 0 \<longrightarrow>
        depth_breakdown (returned (crawl_depth_limited so be (init md mppl) w start_url)) = []
        \<and> max_depth_reached (returned (crawl_depth_limited so be (init md mppl) w start_url)) = 0)
   \<and> depth_breakdown (returned shared_run) = [(0, 1), (1, 2), (2, 0)]
   \<and> max_depth_reached (returned shared_run) = 2
   \<and> pages_at 2 (all_results (returned shared_run)) = 0"
proof -
  have g1: "\<exists>n. fst ` set (results_by_depth (returned (crawl_depth_limited so be c w start_url))) =
          fst ` set (depth_results c) \<union> int ` {0..<n}
        \<and> (0 \<le> max_depth c \<longrightarrow> 0 < n) \<and> (max_depth c < 0 \<longrightarrow> n = 0)"
    using while_loop_keys[of so be start_url c w] by (simp add: crawl_fields)
  have g2: "max_depth_reached (returned (crawl_depth_limited so be c w start_url)) =
       (if results_by_depth (returned (crawl_depth_limited so be c w start_url)) = [] then 0
        else Max (fst ` set (results_by_depth (returned (crawl_depth_limited so be c w start_url)))))"
    by (simp add: crawl_depth_limited_def summarize_def Let_def)
  have f1: "0 \<le> md \<longrightarrow>
        (\<exists>n>0. map fst (depth_breakdown (returned (crawl_depth_limited so be (init md mppl) w start_url)))
              = map int [0..<n]
            \<and> max_depth_reached (returned (crawl_depth_limited so be (init md mppl) w start_url)) = int n - 1)"
  proof
    assume md: "0 \<le> md"
    obtain n where n: "n > 0"
      and keys: "map fst (depth_results (while_loop so be [(start_url, 0)] (enter (init md mppl) w)))
              = map int [0..<n]"
      using while_loop_fresh[OF md, of so be start_url mppl w] by blast
    have ne: "depth_results (while_loop so be [(start_url, 0)] (enter (init md mppl) w)) \<noteq> []"
      using keys n by auto
    have k2: "map fst (depth_breakdown (returned (crawl_depth_limited so be (init md mppl) w start_url)))
                = map int [0..<n]"
      using keys by (simp add: crawl_depth_limited_def summarize_def Let_def split_def comp_def)
    have "max_depth_reached (returned (crawl_depth_limited so be (init md mppl) w start_url)) = int n - 1"
      using ne keys Max_int_upt[OF n] by (simp add: crawl_depth_limited_def summarize_def Let_def)
    with k2 n show "\<exists>n>0. map fst (depth_breakdown (returned (crawl_depth_limited so be (init md mppl) w start_url)))
              = map int [0..<n]
            \<and> max_depth_reached (returned (crawl_depth_limited so be (init md mppl) w start_url)) = int n - 1"
      by blast
  qed
  have f2: "md < 0 \<longrightarrow>
        depth_breakdown (returned (crawl_depth_limited so be (init md mppl) w start_url)) = []
        \<and> max_depth_reached (returned (crawl_depth_limited so be (init md mppl) w start_url)) = 0"
  proof
    assume "md < 0"
    then have "max_pages_per_level (enter (init md mppl) w) < 1 \<or> max_depth (enter (init md mppl) w) < 0"
      by (simp add: enter_def init_def)
    from while_loop_no_pages[OF this, of so be start_url] \<open>md < 0\<close>
    show "depth_breakdown (returned (crawl_depth_limited so be (init md mppl) w start_url)) = []
        \<and> max_depth_reached (returned (crawl_depth_limited so be (init md mppl) w start_url)) = 0"
      by (simp add: crawl_depth_limited_def summarize_def Let_def enter_def init_def)
  qed
  show ?thesis using g1 g2 f1 f2 by (simp add: shared_run_value pages_at_def)
qed

theorem empty_level_recorded_witness:
  "map fst (depth_breakdown (returned shared_run)) = [0, 1, 2]
   \<and> max_depth_reached (returned shared_run) = 2
   \<and> depth_breakdown (returned shared_run) = [(0, 1), (1, 2), (2, 0)]"
  using empty_level_recorded[of insertion_order shared_backend "init 2 2" "()" page_a 2 2]
  by (simp add: shared_run_value)

end
